theory Spec2Isabelle
  imports Main "HOL-Library.Sublist" "HOL-Library.Multiset"
begin

section \<open>GitHub search responses\<close>

text \<open>
  A value read with \<open>dict.get\<close> from a decoded JSON object: the key may be absent,
  present with \<open>null\<close>, or present with a value. \<open>d.get(k)\<close> gives \<open>None\<close> in the
  first two cases; \<open>d.get(k, default)\<close> gives the default only when the key is absent.
\<close>

datatype 'a jfield = Absent | Null | Val 'a

fun get :: "'a jfield \<Rightarrow> 'a option" where
  "get Absent = None"
| "get Null = None"
| "get (Val v) = Some v"

fun get_default :: "'a jfield \<Rightarrow> 'a \<Rightarrow> 'a option" where
  "get_default Absent d = Some d"
| "get_default Null d = None"
| "get_default (Val v) d = Some v"

text \<open>
  The nested \<open>repository\<close> object of a code search result item. The star count is an
  integer whenever the key is present (\<open>None\<close> here is the absent key).
\<close>

record repo_json =
  j_full_name :: "string jfield"
  j_html_url :: "string jfield"
  j_description :: "string jfield"
  j_default_branch :: "string jfield"
  j_stargazers_count :: "int option"
  j_language :: "string jfield"

text \<open>An item; \<open>None\<close> is the absent \<open>repository\<close> key, read as \<open>{}\<close>.\<close>

record item =
  repository :: "repo_json option"

definition empty_repo :: repo_json where
  "empty_repo = \<lparr>j_full_name = Absent, j_html_url = Absent, j_description = Absent,
     j_default_branch = Absent, j_stargazers_count = None, j_language = Absent\<rparr>"

text \<open>The decoded response; \<open>items = None\<close> is an absent or \<open>null\<close> key.\<close>

record response =
  total_count :: "int option"
  items :: "item list option"

datatype request_error = HTTPError int | URLError | DecodeError

text \<open>
  \<open>_make_request\<close> seen from its caller: for the page number in the URL it returns the
  decoded response or raises.
\<close>

type_synonym api = "int \<Rightarrow> request_error + response"

section \<open>Searcher\<close>

record repository_record =
  url :: "string option"
  full_name :: string
  description :: "string option"
  default_branch :: "string option"
  stars :: int
  language :: "string option"

text \<open>The dict literal stored under \<open>repos[repo_full_name]\<close>.\<close>

definition make_record :: "repo_json \<Rightarrow> string \<Rightarrow> repository_record" where
  "make_record repo repo_full_name =
     \<lparr>url = get (j_html_url repo),
      full_name = repo_full_name,
      description = get_default (j_description repo) [],
      default_branch = get_default (j_default_branch repo) ''main'',
      stars = (case j_stargazers_count repo of None \<Rightarrow> 0 | Some n \<Rightarrow> n),
      language = get_default (j_language repo) []\<rparr>"

definition item_repo :: "item \<Rightarrow> repo_json" where
  "item_repo it = (case repository it of None \<Rightarrow> empty_repo | Some r \<Rightarrow> r)"

text \<open>
  \<open>repos\<close> is a dict keyed by full name; Python dicts keep insertion order, so it is an
  association list that grows at the end.
\<close>

type_synonym repos = "(string \<times> repository_record) list"

text \<open>
  The \<open>for item in items\<close> loop. A name is taken when it is truthy (a non-empty string)
  and not yet a key; the loop breaks once \<open>len(repos) >= max_repos\<close>.
\<close>

fun extract_items :: "int \<Rightarrow> item list \<Rightarrow> repos \<Rightarrow> repos" where
  "extract_items max_repos [] repos = repos"
| "extract_items max_repos (it # rest) repos =
     (case get (j_full_name (item_repo it)) of
        None \<Rightarrow> extract_items max_repos rest repos
      | Some repo_full_name \<Rightarrow>
          if repo_full_name \<noteq> [] \<and> repo_full_name \<notin> set (map fst repos) then
            (let repos' = repos @ [(repo_full_name, make_record (item_repo it) repo_full_name)]
             in if int (length repos') \<ge> max_repos then repos'
                else extract_items max_repos rest repos')
          else extract_items max_repos rest repos)"

text \<open>
  The \<open>while\<close> loop of \<open>search_repos_with_cook_files\<close>. The state is the page counter,
  the dict and the list of pages requested so far (one entry per \<open>_make_request\<close> call).
  An exception of the request and an empty \<open>items\<close> both break.
\<close>

function search_loop :: "api \<Rightarrow> int \<Rightarrow> int \<Rightarrow> int \<Rightarrow> repos \<Rightarrow> int list \<Rightarrow> repos \<times> int list" where
  "search_loop request max_repos max_pages page repos requested =
     (if page \<le> max_pages \<and> int (length repos) < max_repos then
        (case request page of
           Inl e \<Rightarrow> (repos, requested @ [page])
         | Inr results \<Rightarrow>
             (case items results of
                None \<Rightarrow> (repos, requested @ [page])
              | Some [] \<Rightarrow> (repos, requested @ [page])
              | Some (it # rest) \<Rightarrow>
                  search_loop request max_repos max_pages (page + 1)
                    (extract_items max_repos (it # rest) repos) (requested @ [page])))
      else (repos, requested))"
  by pat_completeness auto
termination
  by (relation "measure (\<lambda>(request, max_repos, max_pages, page, repos, requested).
        nat (max_pages + 1 - page))") auto

declare search_loop.simps [simp del]

definition search_repos_with_cook_files :: "api \<Rightarrow> int \<Rightarrow> int \<Rightarrow> repository_record list" where
  "search_repos_with_cook_files request max_repos max_pages =
     map snd (fst (search_loop request max_repos max_pages 1 [] []))"

definition pages_requested :: "api \<Rightarrow> int \<Rightarrow> int \<Rightarrow> int list" where
  "pages_requested request max_repos max_pages =
     snd (search_loop request max_repos max_pages 1 [] [])"


section \<open>Text helpers\<close>

text \<open>
  A Python \<open>str\<close> is modelled by its UTF-8 encoding, a byte string, and a file by the
  text that text-mode \<open>open\<close> yields and accepts, with \<open>\\n\<close> as the only line break (a
  file that does not decode makes the read raise). Searching and replacing ASCII
  characters is the same on the bytes as on the code points; \<open>str.strip\<close> and
  \<open>str.rstrip\<close> remove whitespace code points, which are byte sequences here.
\<close>

definition newline :: char where
  "newline = CHR 0x0A"

definition dquote :: char where
  "dquote = CHR 0x22"

definition backslash :: char where
  "backslash = CHR 0x5C"

text \<open>
  The code points \<open>str.isspace\<close> accepts, each in UTF-8: U+0009 to U+000D, U+001C to
  U+001F, U+0020, U+0085, U+00A0, U+1680, U+2000 to U+200A, U+2028, U+2029, U+202F,
  U+205F and U+3000.
\<close>

definition whitespace :: "string list" where
  "whitespace =
     [[CHR 0x09], [CHR 0x0A], [CHR 0x0B], [CHR 0x0C], [CHR 0x0D],
      [CHR 0x1C], [CHR 0x1D], [CHR 0x1E], [CHR 0x1F], [CHR 0x20],
      [CHR 0xC2, CHR 0x85], [CHR 0xC2, CHR 0xA0],
      [CHR 0xE1, CHR 0x9A, CHR 0x80],
      [CHR 0xE2, CHR 0x80, CHR 0x80], [CHR 0xE2, CHR 0x80, CHR 0x81],
      [CHR 0xE2, CHR 0x80, CHR 0x82], [CHR 0xE2, CHR 0x80, CHR 0x83],
      [CHR 0xE2, CHR 0x80, CHR 0x84], [CHR 0xE2, CHR 0x80, CHR 0x85],
      [CHR 0xE2, CHR 0x80, CHR 0x86], [CHR 0xE2, CHR 0x80, CHR 0x87],
      [CHR 0xE2, CHR 0x80, CHR 0x88], [CHR 0xE2, CHR 0x80, CHR 0x89],
      [CHR 0xE2, CHR 0x80, CHR 0x8A],
      [CHR 0xE2, CHR 0x80, CHR 0xA8], [CHR 0xE2, CHR 0x80, CHR 0xA9],
      [CHR 0xE2, CHR 0x80, CHR 0xAF], [CHR 0xE2, CHR 0x81, CHR 0x9F],
      [CHR 0xE3, CHR 0x80, CHR 0x80]]"

definition startswith :: "string \<Rightarrow> string \<Rightarrow> bool" where
  "startswith s p = (take (length p) s = p)"

definition endswith :: "string \<Rightarrow> string \<Rightarrow> bool" where
  "endswith s p = (length p \<le> length s \<and> drop (length s - length p) s = p)"

text \<open>The whitespace code point a string starts with, or ends with, if any.\<close>

definition leading_space :: "string \<Rightarrow> string option" where
  "leading_space s = List.find (startswith s) whitespace"

definition trailing_space :: "string \<Rightarrow> string option" where
  "trailing_space s = List.find (endswith s) whitespace"

text \<open>\<open>s.lstrip()\<close>, \<open>s.rstrip()\<close> and \<open>s.strip()\<close>.\<close>

function lstrip :: "string \<Rightarrow> string" where
  "lstrip s = (case leading_space s of None \<Rightarrow> s | Some w \<Rightarrow> lstrip (drop (length w) s))"
  by pat_completeness auto
termination
proof (relation "measure length")
  show "wf (measure length)" by simp
next
  fix s w :: string
  assume "leading_space s = Some w"
  then have "w \<in> set whitespace" "startswith s w"
    by (auto simp: leading_space_def find_Some_iff)
  then have "w \<noteq> []" "take (length w) s = w"
    by (auto simp: whitespace_def startswith_def)
  then have "s \<noteq> []" "0 < length w" by auto
  then show "(drop (length w) s, s) \<in> measure length"
    by simp
qed

function rstrip :: "string \<Rightarrow> string" where
  "rstrip s = (case trailing_space s of None \<Rightarrow> s | Some w \<Rightarrow> rstrip (take (length s - length w) s))"
  by pat_completeness auto
termination
proof (relation "measure length")
  show "wf (measure length)" by simp
next
  fix s w :: string
  assume "trailing_space s = Some w"
  then have "w \<in> set whitespace" "endswith s w"
    by (auto simp: trailing_space_def find_Some_iff)
  then have "w \<noteq> []" "length w \<le> length s"
    by (auto simp: whitespace_def endswith_def)
  then have "length s - length w < length s"
    by (cases w) auto
  then show "(take (length s - length w) s, s) \<in> measure length"
    by simp
qed

declare lstrip.simps [simp del] rstrip.simps [simp del]

definition strip :: "string \<Rightarrow> string" where
  "strip s = rstrip (lstrip s)"

text \<open>\<open>for line in f\<close>: the lines of a text, each with its line break but possibly the last.\<close>

function file_lines :: "string \<Rightarrow> string list" where
  "file_lines s =
     (if s = [] then []
      else (case dropWhile (\<lambda>c. c \<noteq> newline) s of
              [] \<Rightarrow> [s]
            | c # rest \<Rightarrow> (takeWhile (\<lambda>c. c \<noteq> newline) s @ [newline]) # file_lines rest))"
  by pat_completeness auto
termination
proof (relation "measure length")
  show "wf (measure length)" by simp
next
  fix s :: string and c rest
  assume "dropWhile (\<lambda>c. c \<noteq> newline) s = c # rest"
  then have "length (c # rest) \<le> length s"
    by (metis length_dropWhile_le)
  then show "(rest, s) \<in> measure length" by simp
qed

declare file_lines.simps [simp del]

text \<open>\<open>str(n)\<close> for an integer.\<close>

fun str_nat :: "nat \<Rightarrow> string" where
  "str_nat n = (if n < 10 then [''0123456789'' ! n]
                else str_nat (n div 10) @ [''0123456789'' ! (n mod 10)])"

declare str_nat.simps [simp del]

definition str_int :: "int \<Rightarrow> string" where
  "str_int i = (if i < 0 then CHR ''-'' # str_nat (nat (- i)) else str_nat (nat i))"

section \<open>ConfigStore\<close>

text \<open>
  The document \<open>yaml.safe_load\<close> returns: a mapping with an integer \<open>version\<close> and a
  \<open>feeds\<close> sequence of mappings. Text fields of a feed are read with \<open>feed.get(k)\<close>, so
  \<open>None\<close> stands for an absent key as well as for \<open>null\<close>; \<open>enabled\<close> and \<open>tags\<close> are
  read with a default, which applies to an absent key only.
\<close>

record feed =
  feed_url :: "string option"
  feed_title :: "string option"
  feed_type :: "string option"
  feed_branch :: "string option"
  feed_enabled :: "bool jfield"
  feed_tags :: "string list jfield"
  feed_notes :: "string option"
  feed_added_by :: "string option"
  feed_added_at :: "string option"

record config =
  version :: "int jfield"
  feeds :: "feed list jfield"

datatype py_error = TypeError | YAMLError

record feed_manager =
  config :: config
  header_lines :: "string list"
  footer_lines :: "string list"

fun extract_header_loop :: "string list \<Rightarrow> string list" where
  "extract_header_loop [] = []"
| "extract_header_loop (line # rest) =
     (let stripped = strip line in
      if startswith stripped ''#'' \<or> stripped = [] then rstrip line # extract_header_loop rest
      else if startswith stripped ''version:'' then []
      else [])"

definition extract_header :: "string \<Rightarrow> string list" where
  "extract_header content = extract_header_loop (file_lines content)"

fun extract_footer_loop :: "bool \<Rightarrow> string list \<Rightarrow> string list" where
  "extract_footer_loop in_validation [] = []"
| "extract_footer_loop in_validation (line # rest) =
     (let stripped = strip line in
      if startswith stripped ''# Validation configuration'' \<or> in_validation then
        rstrip line # extract_footer_loop True rest
      else if startswith stripped ''validation:'' then
        rstrip line # extract_footer_loop True rest
      else extract_footer_loop in_validation rest)"

definition extract_footer :: "string \<Rightarrow> string list" where
  "extract_footer content = extract_footer_loop False (file_lines content)"

text \<open>
  \<open>FeedManager.__init__\<close>: the file is parsed by \<open>yaml.safe_load\<close> (a parameter: the
  parser is a library) and read twice more for the header and the footer.
\<close>

definition FeedManager :: "(string \<Rightarrow> py_error + config) \<Rightarrow> string \<Rightarrow> py_error + feed_manager" where
  "FeedManager yaml_safe_load content =
     (case yaml_safe_load content of
        Inl e \<Rightarrow> Inl e
      | Inr c \<Rightarrow> Inr \<lparr>config = c, header_lines = extract_header content,
                      footer_lines = extract_footer content\<rparr>)"

definition escape_yaml_string :: "string option \<Rightarrow> string" where
  "escape_yaml_string s =
     (case s of
        None \<Rightarrow> []
      | Some t \<Rightarrow> concat (map (\<lambda>c. if c = dquote then [backslash, dquote] else [c]) t))"

text \<open>An f-string field \<open>{v}\<close> of an optional string: \<open>None\<close> prints as \<open>None\<close>.\<close>

definition fmt_opt :: "string option \<Rightarrow> string" where
  "fmt_opt v = (case v of None \<Rightarrow> ''None'' | Some t \<Rightarrow> t)"

text \<open>\<open>str(feed.get("enabled", True)).lower()\<close>\<close>

definition enabled_text :: "bool jfield \<Rightarrow> string" where
  "enabled_text e =
     (case e of Absent \<Rightarrow> ''true'' | Null \<Rightarrow> ''none''
      | Val b \<Rightarrow> (if b then ''true'' else ''false''))"

text \<open>
  What one pass of the \<open>for i, feed in enumerate(feeds)\<close> body writes: the text, and the
  exception that ended it if any (iterating the tags of a feed whose \<open>tags\<close> is
  \<open>null\<close>). \<open>is_first\<close> is \<open>i == 0\<close>, \<open>has_next\<close> is \<open>i < len(feeds) - 1\<close>.
\<close>

definition write_feed :: "bool \<Rightarrow> bool \<Rightarrow> feed \<Rightarrow> string \<times> py_error option" where
  "write_feed is_first has_next fd =
     (let head =
        (if is_first then ''  # GitHub repository feed'' @ [newline] else []) @
        ''  - url: '' @ [dquote] @ escape_yaml_string (feed_url fd) @ [dquote, newline] @
        ''    title: '' @ [dquote] @ escape_yaml_string (feed_title fd) @ [dquote, newline] @
        ''    feed_type: '' @ fmt_opt (feed_type fd) @ [newline] @
        (case feed_branch fd of
           None \<Rightarrow> []
         | Some branch \<Rightarrow>
             if branch \<noteq> [] then ''    branch: '' @ [dquote] @ branch @ [dquote, newline] else []) @
        ''    enabled: '' @ enabled_text (feed_enabled fd) @ [newline] @
        ''    tags:'' @ [newline]
      in case feed_tags fd of
           Null \<Rightarrow> (head, Some TypeError)
         | tgs \<Rightarrow>
             (head @
              concat (map (\<lambda>tag. ''      - '' @ tag @ [newline])
                        (case tgs of Val ts \<Rightarrow> ts | _ \<Rightarrow> [])) @
              ''    notes: '' @ [dquote] @ escape_yaml_string (feed_notes fd) @ [dquote, newline] @
              ''    added_by: '' @ [dquote] @ escape_yaml_string (feed_added_by fd) @ [dquote, newline] @
              ''    added_at: '' @ [dquote] @ escape_yaml_string (feed_added_at fd) @ [dquote, newline] @
              (if has_next then [newline] else []),
              None))"

fun write_feeds :: "nat \<Rightarrow> nat \<Rightarrow> feed list \<Rightarrow> string \<times> py_error option" where
  "write_feeds i n [] = ([], None)"
| "write_feeds i n (fd # rest) =
     (case write_feed (i = 0) (Suc i < n) fd of
        (out, Some e) \<Rightarrow> (out, Some e)
      | (out, None) \<Rightarrow>
          (case write_feeds (Suc i) n rest of (out', r) \<Rightarrow> (out @ out', r)))"

definition version_text :: "int jfield \<Rightarrow> string" where
  "version_text v = (case v of Absent \<Rightarrow> str_int 1 | Null \<Rightarrow> ''None'' | Val n \<Rightarrow> str_int n)"

text \<open>
  \<open>save_config\<close>: the text written to the (truncated) file, and the exception that cut
  the writing short if any (\<open>feeds\<close> or some \<open>tags\<close> being \<open>null\<close>).
\<close>

definition save_config :: "feed_manager \<Rightarrow> string \<times> py_error option" where
  "save_config fm =
     (let head =
        (if header_lines fm \<noteq> [] then
           concat (map (\<lambda>line. line @ [newline]) (header_lines fm)) @ [newline]
         else []) @
        ''version: '' @ version_text (version (config fm)) @ [newline, newline] @
        ''feeds:'' @ [newline]
      in case feeds (config fm) of
           Null \<Rightarrow> (head, Some TypeError)
         | fs \<Rightarrow>
             (let entries = (case fs of Val l \<Rightarrow> l | _ \<Rightarrow> []) in
              case write_feeds 0 (length entries) entries of
                (body, Some e) \<Rightarrow> (head @ body, Some e)
              | (body, None) \<Rightarrow>
                  (head @ body @
                   (if footer_lines fm \<noteq> [] then
                      [newline, newline, newline] @
                      concat (map (\<lambda>line. line @ [newline]) (footer_lines fm))
                    else []),
                   None)))"

definition is_feed_exists :: "feed_manager \<Rightarrow> string option \<Rightarrow> py_error + bool" where
  "is_feed_exists fm repo_url =
     (case feeds (config fm) of
        Absent \<Rightarrow> Inr False
      | Null \<Rightarrow> Inl TypeError
      | Val fs \<Rightarrow> Inr (list_ex (\<lambda>fd. feed_url fd = repo_url) fs))"

text \<open>The star in the notes is U+2B50, three bytes in UTF-8.\<close>

definition star_emoji :: string where
  "star_emoji = [CHR 0xE2, CHR 0xAD, CHR 0x90]"

definition new_feed :: "repository_record \<Rightarrow> string \<Rightarrow> string \<Rightarrow> feed" where
  "new_feed repo added_by today =
     \<lparr>feed_url = url repo,
      feed_title = Some (case description repo of
                           None \<Rightarrow> full_name repo @ '' recipes''
                         | Some d \<Rightarrow> if d \<noteq> [] then d else full_name repo @ '' recipes''),
      feed_type = Some ''github'',
      feed_branch = default_branch repo,
      feed_enabled = Val True,
      feed_tags = Val [''cookbook'', ''github''],
      feed_notes = Some (''Found via GitHub search ('' @ star_emoji @ '' '' @ str_int (stars repo) @ '')''),
      feed_added_by = Some added_by,
      feed_added_at = Some today\<rparr>"

text \<open>
  \<open>add_feed\<close>: the returned flag and the manager after the call. \<open>today\<close> is
  \<open>str(date.today())\<close>.
\<close>

definition add_feed :: "feed_manager \<Rightarrow> repository_record \<Rightarrow> string \<Rightarrow> string \<Rightarrow> py_error + (bool \<times> feed_manager)" where
  "add_feed fm repo added_by today =
     (case is_feed_exists fm (url repo) of
        Inl e \<Rightarrow> Inl e
      | Inr True \<Rightarrow> Inr (False, fm)
      | Inr False \<Rightarrow>
          (let fs = (case feeds (config fm) of Val l \<Rightarrow> l | _ \<Rightarrow> [])
           in Inr (True, fm\<lparr>config := (config fm)\<lparr>feeds := Val (fs @ [new_feed repo added_by today])\<rparr>\<rparr>)))"


section \<open>Orchestrator\<close>

record args =
  arg_token :: "string option"
  arg_limit :: int
  arg_max_pages :: int
  arg_randomize :: bool
  arg_dry_run :: bool
  arg_added_by :: string

text \<open>
  What \<open>main\<close> reads from outside: the content of \<open>config/feeds.yaml\<close> (\<open>None\<close> when
  the file does not exist), the answers of the search API, the YAML parser, the draws of
  the random generator and the date.
\<close>

record world =
  config_file :: "string option"
  github :: api
  yaml_safe_load :: "string \<Rightarrow> py_error + config"
  draw :: "nat \<Rightarrow> nat"
  today :: string

text \<open>
  \<open>random.shuffle(x)\<close>: for \<open>i\<close> from \<open>len(x) - 1\<close> down to 1, swap \<open>x[i]\<close> with
  \<open>x[j]\<close> where \<open>j\<close> is drawn below \<open>i + 1\<close>. \<open>draw i\<close> is the number drawn at step \<open>i\<close>.
\<close>

fun shuffle_loop :: "(nat \<Rightarrow> nat) \<Rightarrow> nat \<Rightarrow> 'a list \<Rightarrow> 'a list" where
  "shuffle_loop d 0 x = x"
| "shuffle_loop d (Suc i) x =
     (let j = d (Suc i) mod (Suc i + 1)
      in shuffle_loop d i (x[Suc i := x ! j, j := x ! Suc i]))"

definition shuffle :: "(nat \<Rightarrow> nat) \<Rightarrow> 'a list \<Rightarrow> 'a list" where
  "shuffle d x = shuffle_loop d (length x - 1) x"

text \<open>The slice \<open>xs[:n]\<close>; a negative \<open>n\<close> counts from the end.\<close>

definition slice_to :: "'a list \<Rightarrow> int \<Rightarrow> 'a list" where
  "slice_to xs n = (if 0 \<le> n then take (nat n) xs else take (length xs - nat (- n)) xs)"

text \<open>
  The selection step of \<open>main\<close>. \<open>list.sort(key, reverse=True)\<close> is stable and keeps
  the original order of equal keys, as the stable ascending sort on the negated key does.
\<close>

definition select_repos :: "bool \<Rightarrow> (nat \<Rightarrow> nat) \<Rightarrow> repository_record list \<Rightarrow> int \<Rightarrow> repository_record list" where
  "select_repos randomize d repos limit =
     (if randomize then slice_to (shuffle d repos) limit
      else slice_to (sort_key (\<lambda>r. - stars r) repos) limit)"

text \<open>One constructor for each message \<open>main\<close> and \<open>add_feed\<close> print.\<close>

datatype message =
    Warning_no_token
  | Config_not_found
  | Using_config_file
  | No_repositories_found
  | Randomizing
  | Processing_random nat
  | Processing_top nat
  | Dry_run_would_add string int
  | Dry_run_would_skip string
  | Skipping string
  | Added string int
  | Successfully_added nat
  | Dry_run_total nat
  | No_new_feeds
  | Traceback py_error

text \<open>
  The \<open>for repo in repos\<close> loop of \<open>main\<close>: the manager, \<open>added_count\<close> and the messages
  after it, or the exception that ended it.
\<close>

fun process_repos :: "bool \<Rightarrow> string \<Rightarrow> string \<Rightarrow> repository_record list \<Rightarrow> feed_manager \<Rightarrow> nat \<Rightarrow>
    message list \<Rightarrow> (py_error \<times> message list) + (feed_manager \<times> nat \<times> message list)" where
  "process_repos dry added_by tdy [] fm added_count msgs = Inr (fm, added_count, msgs)"
| "process_repos dry added_by tdy (repo # rest) fm added_count msgs =
     (if dry then
        (case is_feed_exists fm (url repo) of
           Inl e \<Rightarrow> Inl (e, msgs)
         | Inr ex \<Rightarrow>
             if \<not> ex then
               process_repos dry added_by tdy rest fm (added_count + 1)
                 (msgs @ [Dry_run_would_add (full_name repo) (stars repo)])
             else
               process_repos dry added_by tdy rest fm added_count
                 (msgs @ [Dry_run_would_skip (full_name repo)]))
      else
        (case add_feed fm repo added_by tdy of
           Inl e \<Rightarrow> Inl (e, msgs)
         | Inr (True, fm') \<Rightarrow>
             process_repos dry added_by tdy rest fm' (added_count + 1)
               (msgs @ [Added (full_name repo) (stars repo)])
         | Inr (False, fm') \<Rightarrow>
             process_repos dry added_by tdy rest fm' added_count
               (msgs @ [Skipping (full_name repo)])))"

record main_result =
  exit_status :: int
  file_after :: "string option"
  printed :: "message list"

text \<open>
  \<open>main\<close>. An uncaught exception ends the process with status 1 after a traceback,
  \<open>sys.exit(1)\<close> with status 1, a return with status 0. On the typed responses of this
  model the search itself never raises, so the \<open>except\<close> around it has no branch here.
\<close>

definition main :: "world \<Rightarrow> args \<Rightarrow> main_result" where
  "main w a =
     (if arg_token a = None \<or> arg_token a = Some [] then
        \<lparr>exit_status = 1, file_after = config_file w, printed = [Warning_no_token]\<rparr>
      else
        (case config_file w of
           None \<Rightarrow> \<lparr>exit_status = 1, file_after = None, printed = [Config_not_found]\<rparr>
         | Some content \<Rightarrow>
             (case FeedManager (yaml_safe_load w) content of
                Inl e \<Rightarrow>
                  \<lparr>exit_status = 1, file_after = Some content,
                   printed = [Using_config_file, Traceback e]\<rparr>
              | Inr feed_mgr \<Rightarrow>
                  (let repos = search_repos_with_cook_files (github w) (arg_limit a * 5) (arg_max_pages a)
                   in if repos = [] then
                        \<lparr>exit_status = 0, file_after = Some content,
                         printed = [Using_config_file, No_repositories_found]\<rparr>
                      else
                        (let selected = select_repos (arg_randomize a) (draw w) repos (arg_limit a);
                             msgs = Using_config_file #
                               (if arg_randomize a then [Randomizing, Processing_random (length selected)]
                                else [Processing_top (length selected)])
                         in case process_repos (arg_dry_run a) (arg_added_by a) (today w)
                                   selected feed_mgr 0 msgs of
                              Inl (e, msgs') \<Rightarrow>
                                \<lparr>exit_status = 1, file_after = Some content,
                                 printed = msgs' @ [Traceback e]\<rparr>
                            | Inr (feed_mgr', added_count, msgs') \<Rightarrow>
                                if \<not> arg_dry_run a \<and> added_count > 0 then
                                  (case save_config feed_mgr' of
                                     (out, Some e) \<Rightarrow>
                                       \<lparr>exit_status = 1, file_after = Some out,
                                        printed = msgs' @ [Traceback e]\<rparr>
                                   | (out, None) \<Rightarrow>
                                       \<lparr>exit_status = 0, file_after = Some out,
                                        printed = msgs' @ [Successfully_added added_count]\<rparr>)
                                else if arg_dry_run a then
                                  \<lparr>exit_status = 0, file_after = Some content,
                                   printed = msgs' @ [Dry_run_total added_count]\<rparr>
                                else
                                  \<lparr>exit_status = 0, file_after = Some content,
                                   printed = msgs' @ [No_new_feeds]\<rparr>)))))"

section \<open>Specification-side notions\<close>

text \<open>A page that lets pagination go on: the request succeeded and \<open>items\<close> is non-empty.\<close>

definition good_page :: "request_error + response \<Rightarrow> bool" where
  "good_page r = (case r of Inl e \<Rightarrow> False
                  | Inr results \<Rightarrow> (case items results of None \<Rightarrow> False | Some its \<Rightarrow> its \<noteq> []))"

definition page_items :: "request_error + response \<Rightarrow> item list" where
  "page_items r = (case r of Inl e \<Rightarrow> []
                  | Inr results \<Rightarrow> (case items results of None \<Rightarrow> [] | Some its \<Rightarrow> its))"

text \<open>
  The result items in result order: those of pages \<open>page, page + 1, ...\<close> up to
  \<open>max_pages\<close>, ending before the first page that failed or had no items.
\<close>

definition stream_from :: "api \<Rightarrow> int \<Rightarrow> int \<Rightarrow> item list" where
  "stream_from request page max_pages =
     concat (map (\<lambda>p. page_items (request p))
               (takeWhile (\<lambda>p. good_page (request p)) [page..max_pages]))"

definition consumed_items :: "api \<Rightarrow> int \<Rightarrow> item list" where
  "consumed_items request max_pages = stream_from request 1 max_pages"

text \<open>The repository an item names, with the record built from that item.\<close>

definition candidate :: "item \<Rightarrow> (string \<times> repository_record) option" where
  "candidate it = (case get (j_full_name (item_repo it)) of
       None \<Rightarrow> None
     | Some n \<Rightarrow> if n = [] then None else Some (n, make_record (item_repo it) n))"

definition candidates :: "item list \<Rightarrow> (string \<times> repository_record) list" where
  "candidates its = List.map_filter candidate its"

text \<open>First occurrence wins: a pair is kept, and every later pair with its key is dropped.\<close>

fun first_occurrences :: "('k \<times> 'v) list \<Rightarrow> ('k \<times> 'v) list" where
  "first_occurrences [] = []"
| "first_occurrences (kv # kvs) = kv # first_occurrences (filter (\<lambda>p. fst p \<noteq> fst kv) kvs)"

definition fresh :: "repos \<Rightarrow> (string \<times> repository_record) list \<Rightarrow> (string \<times> repository_record) list" where
  "fresh repos kvs = first_occurrences (filter (\<lambda>p. fst p \<notin> fst ` set repos) kvs)"

section \<open>Example inputs\<close>

definition example_item :: "string \<Rightarrow> string jfield \<Rightarrow> int option \<Rightarrow> item" where
  "example_item name descr st = \<lparr>repository = Some
     \<lparr>j_full_name = Val name, j_html_url = Val (''https://github.com/'' @ name),
      j_description = descr, j_default_branch = Absent, j_stargazers_count = st,
      j_language = Null\<rparr>\<rparr>"

text \<open>Two pages of results with repeated repositories, an empty third page, then failures.\<close>

definition example_api :: api where
  "example_api page =
     (if page = 1 then Inr \<lparr>total_count = Some 5, items = Some
          [example_item ''a/x'' (Val ''first'') (Some 5), example_item ''b/y'' Null None,
           example_item ''a/x'' (Val ''second'') (Some 7)]\<rparr>
      else if page = 2 then Inr \<lparr>total_count = Some 5, items = Some
          [example_item ''b/y'' (Val ''again'') (Some 1), example_item ''c/z'' Absent (Some 9)]\<rparr>
      else if page = 3 then Inr \<lparr>total_count = Some 5, items = Some []\<rparr>
      else Inl (HTTPError 403))"


text \<open>The entry sequence of the document, \<open>self.config.get("feeds", [])\<close> when it is a list.\<close>

definition entries :: "feed_manager \<Rightarrow> feed list" where
  "entries fm = (case feeds (config fm) of Val l \<Rightarrow> l | _ \<Rightarrow> [])"

definition example_record :: repository_record where
  "example_record = \<lparr>url = Some ''https://github.com/a/x'', full_name = ''a/x'',
     description = Some ''first'', default_branch = Some ''main'', stars = 5, language = None\<rparr>"

definition example_feed :: feed where
  "example_feed = \<lparr>feed_url = Some ''https://github.com/a/x'',
     feed_title = Some (''say '' @ [dquote] @ ''hi'' @ [dquote]),
     feed_type = Some ''github'', feed_branch = Some ''main'', feed_enabled = Val True,
     feed_tags = Val [''cookbook''], feed_notes = Some ''by hand'',
     feed_added_by = Some ''@alice'', feed_added_at = Some ''2024-01-31''\<rparr>"

definition example_config :: config where
  "example_config = \<lparr>version = Val 1, feeds = Val [example_feed]\<rparr>"

definition example_manager :: feed_manager where
  "example_manager = \<lparr>config = example_config, header_lines = [''# Feeds''],
     footer_lines = [''validation:'', ''  max_feeds: 10'']\<rparr>"

text \<open>A document without a \<open>feeds\<close> key.\<close>

definition feedless_manager :: feed_manager where
  "feedless_manager = \<lparr>config = \<lparr>version = Val 1, feeds = Absent\<rparr>,
     header_lines = [], footer_lines = []\<rparr>"

text \<open>An entry whose branch name holds a double quote.\<close>

definition quoted_branch_manager :: feed_manager where
  "quoted_branch_manager =
     \<lparr>config = \<lparr>version = Val 1,
        feeds = Val [example_feed\<lparr>feed_branch := Some (''a'' @ [dquote] @ ''b'')\<rparr>]\<rparr>,
      header_lines = [], footer_lines = []\<rparr>"

definition example_body :: "string list" where
  "example_body =
     [''version: 1'',
      ''feeds:'',
      ''  - url: '' @ [dquote] @ ''https://github.com/a/x'' @ [dquote],
      ''    title: '' @ [dquote] @ ''say '' @ [backslash, dquote] @ ''hi'' @ [backslash, dquote] @ [dquote],
      ''    feed_type: github'',
      ''    branch: '' @ [dquote] @ ''main'' @ [dquote],
      ''    enabled: true'',
      ''    tags:'',
      ''      - cookbook'',
      ''    notes: '' @ [dquote] @ ''by hand'' @ [dquote],
      ''    added_by: '' @ [dquote] @ ''@alice'' @ [dquote],
      ''    added_at: '' @ [dquote] @ ''2024-01-31'' @ [dquote],
      ''validation:'',
      ''  max_feeds: 10'']"

text \<open>
  A configuration file that holds \<open>example_config\<close>, and the same file with a space at
  the end of its comment line.
\<close>

definition example_content :: string where
  "example_content = concat (map (\<lambda>l. l @ [newline]) (''# Feeds'' # example_body))"

definition spaced_content :: string where
  "spaced_content = concat (map (\<lambda>l. l @ [newline]) (''# Feeds '' # example_body))"

text \<open>An entry whose title is \<open>C:\<close>, a backslash and \<open>temp\<close>.\<close>

definition backslash_manager :: feed_manager where
  "backslash_manager =
     \<lparr>config = \<lparr>version = Val 1,
        feeds = Val [example_feed\<lparr>feed_title := Some (''C:'' @ [backslash] @ ''temp'')\<rparr>]\<rparr>,
      header_lines = [], footer_lines = []\<rparr>"

text \<open>A comment line that ends with a no-break space (U+00A0) before its line break.\<close>

definition nbsp_line :: string where
  "nbsp_line = ''# Feeds'' @ [CHR 0xC2, CHR 0xA0, newline]"

definition example_args :: args where
  "example_args = \<lparr>arg_token = Some ''ghp_token'', arg_limit = 10, arg_max_pages = 10,
     arg_randomize = False, arg_dry_run = False, arg_added_by = ''@bot''\<rparr>"

text \<open>A world whose search finds nothing, and one whose every request is refused (401).\<close>

definition empty_world :: world where
  "empty_world = \<lparr>config_file = Some example_content,
     github = (\<lambda>page. Inr \<lparr>total_count = Some 0, items = Some []\<rparr>),
     yaml_safe_load = (\<lambda>content. Inr example_config), draw = (\<lambda>i. 0), today = ''2024-05-01''\<rparr>"

definition unauthorized_world :: world where
  "unauthorized_world = \<lparr>config_file = Some example_content,
     github = (\<lambda>page. Inl (HTTPError 401)),
     yaml_safe_load = (\<lambda>content. Inr example_config), draw = (\<lambda>i. 0), today = ''2024-05-01''\<rparr>"

definition example_repos :: "repository_record list" where
  "example_repos = search_repos_with_cook_files example_api 10 5"

section \<open>Specification-side notions for the configuration file\<close>

text \<open>
  The header region of a file is its leading run of comment and blank lines; the footer
  region runs from the first line that starts the validation section to the end.
\<close>

definition unlines :: "string list \<Rightarrow> string" where
  "unlines ls = concat (map (\<lambda>l. l @ [newline]) ls)"

definition is_header_line :: "string \<Rightarrow> bool" where
  "is_header_line l = (startswith (strip l) ''#'' \<or> strip l = [])"

definition is_footer_start :: "string \<Rightarrow> bool" where
  "is_footer_start l = (startswith (strip l) ''# Validation configuration'' \<or>
                        startswith (strip l) ''validation:'')"

definition header_region :: "string \<Rightarrow> string list" where
  "header_region content = takeWhile is_header_line (file_lines content)"

definition footer_region :: "string \<Rightarrow> string list" where
  "footer_region content = dropWhile (\<lambda>l. \<not> is_footer_start l) (file_lines content)"


section \<open>Searcher: first occurrences and the pagination loop\<close>

lemma filter_key_absorb:
  "k \<in> K \<Longrightarrow> filter (\<lambda>p. fst p \<notin> K) (filter (\<lambda>p. fst p \<noteq> k) kvs) = filter (\<lambda>p. fst p \<notin> K) kvs"
  by (induction kvs) auto

lemma filter_key_commute:
  "filter (\<lambda>p. fst p \<noteq> k) (filter (\<lambda>p. fst p \<notin> K) kvs)
     = filter (\<lambda>p. fst p \<notin> K) (filter (\<lambda>p. fst p \<noteq> k) kvs)"
  by (induction kvs) auto

lemma first_occurrences_filter:
  "first_occurrences (filter (\<lambda>p. fst p \<notin> K) kvs) = filter (\<lambda>p. fst p \<notin> K) (first_occurrences kvs)"
proof (induction kvs arbitrary: K rule: first_occurrences.induct)
  case 1
  then show ?case by simp
next
  case (2 kv kvs)
  show ?case
  proof (cases "fst kv \<in> K")
    case True
    have "first_occurrences (filter (\<lambda>p. fst p \<notin> K) (kv # kvs))
        = first_occurrences (filter (\<lambda>p. fst p \<notin> K) (filter (\<lambda>p. fst p \<noteq> fst kv) kvs))"
      using True filter_key_absorb[of "fst kv" K kvs] by simp
    also have "\<dots> = filter (\<lambda>p. fst p \<notin> K) (first_occurrences (filter (\<lambda>p. fst p \<noteq> fst kv) kvs))"
      by (rule "2.IH")
    finally show ?thesis using True by simp
  next
    case False
    then show ?thesis using "2.IH"[of K] by (simp add: conj_commute)
  qed
qed

lemma keys_first_occurrences: "fst ` set (first_occurrences kvs) = fst ` set kvs"
  by (induction kvs rule: first_occurrences.induct) (auto simp: first_occurrences_filter image_iff)

lemma first_occurrences_append:
  "first_occurrences (xs @ ys) = first_occurrences xs @ first_occurrences (filter (\<lambda>p. fst p \<notin> fst ` set xs) ys)"
proof (induction xs arbitrary: ys rule: first_occurrences.induct)
  case 1
  then show ?case by simp
next
  case (2 kv kvs)
  have "filter (\<lambda>p. fst p \<notin> fst ` set (filter (\<lambda>p. fst p \<noteq> fst kv) kvs)) (filter (\<lambda>p. fst p \<noteq> fst kv) ys)
      = filter (\<lambda>p. fst p \<notin> fst ` set (kv # kvs)) ys"
    unfolding filter_filter by (rule filter_cong) force+
  then show ?case using "2.IH"[of "filter (\<lambda>p. fst p \<noteq> fst kv) ys"] by simp
qed

lemma distinct_first_occurrences: "distinct (map fst (first_occurrences kvs))"
proof (induction kvs rule: first_occurrences.induct)
  case 1
  then show ?case by simp
next
  case (2 kv kvs)
  have "fst kv \<notin> fst ` set (first_occurrences (filter (\<lambda>p. fst p \<noteq> fst kv) kvs))"
    by (auto simp: keys_first_occurrences)
  then show ?case using 2 by (simp add: image_iff)
qed

lemma map_of_first_occurrences: "map_of (first_occurrences kvs) = map_of kvs"
proof (induction kvs rule: first_occurrences.induct)
  case 1
  then show ?case by simp
next
  case (2 kv kvs)
  show ?case
  proof
    fix k
    show "map_of (first_occurrences (kv # kvs)) k = map_of (kv # kvs) k"
    proof (cases "k = fst kv")
      case True
      then show ?thesis by (cases kv) simp
    next
      case False
      have "map_of (filter (\<lambda>p. fst p \<noteq> fst kv) kvs) k = map_of kvs k"
        using False by (induction kvs) auto
      then show ?thesis using False 2 by (cases kv) simp
    qed
  qed
qed


lemma candidates_simps:
  "candidates [] = []"
  "candidates (it # its) = (case candidate it of None \<Rightarrow> candidates its | Some kv \<Rightarrow> kv # candidates its)"
  "candidates (xs @ ys) = candidates xs @ candidates ys"
proof -
  show "candidates [] = []"
    by (simp add: candidates_def List.map_filter_simps)
  show c: "candidates (it # its) = (case candidate it of None \<Rightarrow> candidates its | Some kv \<Rightarrow> kv # candidates its)"
    for it its
    by (simp add: candidates_def List.map_filter_simps split: option.splits)
  show "candidates (xs @ ys) = candidates xs @ candidates ys"
    by (induction xs) (simp_all add: c candidates_def List.map_filter_simps split: option.splits)
qed

lemma fresh_Nil: "fresh repos [] = []"
  by (simp add: fresh_def)

lemma fresh_Cons:
  "fresh repos (kv # kvs) =
     (if fst kv \<in> fst ` set repos then fresh repos kvs else kv # fresh (repos @ [kv]) kvs)"
proof -
  have "filter (\<lambda>p. fst p \<noteq> fst kv) (filter (\<lambda>p. fst p \<notin> fst ` set repos) kvs)
      = filter (\<lambda>p. fst p \<notin> fst ` set (repos @ [kv])) kvs"
    unfolding filter_filter by (rule filter_cong) auto
  then show ?thesis by (simp add: fresh_def)
qed

lemma fresh_append:
  "fresh repos (xs @ ys) = fresh repos xs @ fresh (repos @ fresh repos xs) ys"
proof -
  have "filter (\<lambda>p. fst p \<notin> fst ` set (filter (\<lambda>p. fst p \<notin> fst ` set repos) xs))
            (filter (\<lambda>p. fst p \<notin> fst ` set repos) ys)
      = filter (\<lambda>p. fst p \<notin> fst ` set (repos @ first_occurrences (filter (\<lambda>p. fst p \<notin> fst ` set repos) xs))) ys"
    unfolding filter_filter
    by (rule filter_cong) (auto simp: image_Un keys_first_occurrences)
  then show ?thesis
    by (simp add: fresh_def first_occurrences_append)
qed

lemma extract_items_closed:
  "int (length repos) < m \<Longrightarrow>
   extract_items m its repos = take (nat m) (repos @ fresh repos (candidates its))"
proof (induction its arbitrary: repos)
  case Nil
  then show ?case by (simp add: candidates_simps fresh_Nil)
next
  case (Cons it its)
  show ?case
  proof (cases "candidate it")
    case None
    then have "extract_items m (it # its) repos = extract_items m its repos"
      by (auto simp: candidate_def split: option.splits if_splits)
    then show ?thesis using None Cons by (simp add: candidates_simps)
  next
    case (Some kv)
    then obtain n where n: "get (j_full_name (item_repo it)) = Some n" "n \<noteq> []"
      "kv = (n, make_record (item_repo it) n)"
      by (auto simp: candidate_def split: option.splits if_splits)
    show ?thesis
    proof (cases "n \<in> fst ` set repos")
      case True
      then have "extract_items m (it # its) repos = extract_items m its repos"
        using n by simp
      then show ?thesis using True Some n Cons by (simp add: candidates_simps fresh_Cons)
    next
      case False
      let ?repos' = "repos @ [kv]"
      show ?thesis
      proof (cases "int (length ?repos') \<ge> m")
        case True
        then have "extract_items m (it # its) repos = ?repos'"
          using n False by simp
        moreover have "nat m = length ?repos'"
          using True Cons.prems by simp
        ultimately show ?thesis using False Some n
          by (simp add: candidates_simps fresh_Cons)
      next
        case F2: False
        then have "extract_items m (it # its) repos = extract_items m its ?repos'"
          using n False by (simp add: Let_def)
        also have "\<dots> = take (nat m) (?repos' @ fresh ?repos' (candidates its))"
          using F2 by (intro Cons.IH) simp
        finally show ?thesis using False Some n
          by (simp add: candidates_simps fresh_Cons)
      qed
    qed
  qed
qed

lemma stream_from_empty: "max_pages < page \<Longrightarrow> stream_from request page max_pages = []"
  by (simp add: stream_from_def)

lemma stream_from_bad:
  "\<not> good_page (request page) \<Longrightarrow> stream_from request page max_pages = []"
  by (cases "page \<le> max_pages") (simp_all add: stream_from_def upto_rec1)

lemma stream_from_good:
  "good_page (request page) \<Longrightarrow> page \<le> max_pages \<Longrightarrow>
   stream_from request page max_pages = page_items (request page) @ stream_from request (page + 1) max_pages"
  by (simp add: stream_from_def upto_rec1)

lemma take_append_short: "n \<le> length xs \<Longrightarrow> take n (xs @ ys) = take n xs"
  by simp

lemma take_take_append: "n \<le> length xs \<Longrightarrow> take n (take n xs @ ys) = take n xs"
  by simp

lemma search_loop_closed:
  "int (length repos) \<le> max 0 m \<Longrightarrow>
   fst (search_loop request m max_pages page repos requested)
     = take (nat m) (repos @ fresh repos (candidates (stream_from request page max_pages)))"
proof (induction request m max_pages page repos requested rule: search_loop.induct)
  case (1 request m max_pages page repos requested)
  show ?case
  proof (cases "page \<le> max_pages \<and> int (length repos) < m")
    case False
    then have "fst (search_loop request m max_pages page repos requested) = repos"
      by (subst search_loop.simps) auto
    moreover have "take (nat m) (repos @ fresh repos (candidates (stream_from request page max_pages))) = repos"
    proof (cases "page \<le> max_pages")
      case True
      then have "nat m \<le> length repos" using False by simp
      moreover have "length repos \<le> nat m" using "1.prems" by auto
      ultimately show ?thesis by simp
    next
      case F: False
      have "length repos \<le> nat m" using "1.prems" by auto
      then show ?thesis using F by (simp add: stream_from_empty candidates_simps fresh_Nil)
    qed
    ultimately show ?thesis by simp
  next
    case True
    show ?thesis
    proof (cases "good_page (request page)")
      case False
      then have "fst (search_loop request m max_pages page repos requested) = repos"
        using True by (subst search_loop.simps) (auto simp: good_page_def split: sum.splits option.splits list.splits)
      moreover have "length repos \<le> nat m" using "1.prems" by auto
      ultimately show ?thesis using False
        by (simp add: stream_from_bad candidates_simps fresh_Nil)
    next
      case G: True
      then obtain results it rest where r: "request page = Inr results" "items results = Some (it # rest)"
        by (auto simp: good_page_def neq_Nil_conv split: sum.splits option.splits)
      let ?its = "it # rest"
      let ?repos' = "extract_items m ?its repos"
      have pi: "page_items (request page) = ?its" using r by (simp add: page_items_def)
      have ex: "?repos' = take (nat m) (repos @ fresh repos (candidates ?its))"
        using True by (intro extract_items_closed) simp
      have len: "int (length ?repos') \<le> max 0 m" unfolding ex by simp
      have "fst (search_loop request m max_pages page repos requested)
          = fst (search_loop request m max_pages (page + 1) ?repos' (requested @ [page]))"
        using True r by (subst search_loop.simps) simp
      also have "\<dots> = take (nat m) (?repos' @ fresh ?repos' (candidates (stream_from request (page + 1) max_pages)))"
        using True r len by (intro "1.IH") auto
      also have "\<dots> = take (nat m) (repos @ fresh repos (candidates (stream_from request page max_pages)))"
      proof -
        let ?A = "fresh repos (candidates ?its)"
        let ?S = "candidates (stream_from request (page + 1) max_pages)"
        have split: "fresh repos (candidates (stream_from request page max_pages)) = ?A @ fresh (repos @ ?A) ?S"
          using True G by (simp only: stream_from_good pi candidates_simps(3) fresh_append)
        show ?thesis
        proof (cases "nat m \<le> length (repos @ ?A)")
          case T: True
          have "take (nat m) (?repos' @ fresh ?repos' ?S) = take (nat m) (repos @ ?A)"
            unfolding ex using T by (rule take_take_append)
          also have "\<dots> = take (nat m) ((repos @ ?A) @ fresh (repos @ ?A) ?S)"
            using T by (rule take_append_short[symmetric])
          finally show ?thesis unfolding split by (simp only: append_assoc)
        next
          case F: False
          then have "take (nat m) (repos @ ?A) = repos @ ?A"
            by simp
          then show ?thesis unfolding split ex by (simp only: append_assoc)
        qed
      qed
      finally show ?thesis .
    qed
  qed
qed


lemma search_loop_fst_trace:
  "int (length repos) \<le> max 0 m \<Longrightarrow>
   fst (search_loop request m max_pages page repos requested)
     = fst (search_loop request m max_pages page repos [])"
  by (simp only: search_loop_closed)

lemma search_loop_trace_shape:
  "\<exists>k. page - 1 \<le> k \<and> k \<le> max max_pages (page - 1) \<and>
       snd (search_loop request m max_pages page repos requested) = requested @ [page..k]"
proof (induction request m max_pages page repos requested rule: search_loop.induct)
  case (1 request m max_pages page repos requested)
  show ?case
  proof (cases "page \<le> max_pages \<and> int (length repos) < m")
    case False
    then have "snd (search_loop request m max_pages page repos requested) = requested @ [page..page - 1]"
      by (subst search_loop.simps) auto
    then show ?thesis by (intro exI[of _ "page - 1"]) simp
  next
    case True
    show ?thesis
    proof (cases "good_page (request page)")
      case False
      then have "snd (search_loop request m max_pages page repos requested) = requested @ [page..page]"
        using True by (subst search_loop.simps) (auto simp: good_page_def split: sum.splits option.splits list.splits)
      then show ?thesis using True by (intro exI[of _ page]) simp
    next
      case G: True
      then obtain results it rest where r: "request page = Inr results" "items results = Some (it # rest)"
        by (auto simp: good_page_def neq_Nil_conv split: sum.splits option.splits)
      have step: "snd (search_loop request m max_pages page repos requested)
          = snd (search_loop request m max_pages (page + 1) (extract_items m (it # rest) repos) (requested @ [page]))"
        using True r by (subst search_loop.simps) simp
      from "1.IH"[OF True r(1) r(2)]
      obtain k where k: "page \<le> k" "k \<le> max max_pages page"
        "snd (search_loop request m max_pages (page + 1) (extract_items m (it # rest) repos) (requested @ [page]))
           = (requested @ [page]) @ [page + 1..k]"
        by auto
      have "[page..k] = page # [page + 1..k]" using k(1) by (simp add: upto_rec1)
      then have "snd (search_loop request m max_pages page repos requested) = requested @ [page..k]"
        using step k(3) by simp
      then show ?thesis using k True by (intro exI[of _ k]) auto
    qed
  qed
qed

lemma search_loop_trace_mem:
  "int (length repos) \<le> max 0 m \<Longrightarrow>
   p \<in> set (snd (search_loop request m max_pages page repos requested)) \<longleftrightarrow>
     p \<in> set requested \<or>
     (page \<le> p \<and> p \<le> max_pages \<and> (\<forall>j\<in>{page..<p}. good_page (request j)) \<and>
      int (length (fst (search_loop request m (p - 1) page repos []))) < m)"
proof (induction request m max_pages page repos requested rule: search_loop.induct)
  case (1 request m max_pages page repos requested)
  have stop: "fst (search_loop request m (page - 1) page repos []) = repos"
    by (subst search_loop.simps) simp
  show ?case
  proof (cases "page \<le> max_pages \<and> int (length repos) < m")
    case False
    have a: "snd (search_loop request m max_pages page repos requested) = requested"
      using False by (subst search_loop.simps) auto
    have "\<not> int (length (fst (search_loop request m (p - 1) page repos []))) < m" if "page \<le> max_pages"
    proof -
      have "\<not> int (length repos) < m" using False that by simp
      then have "fst (search_loop request m (p - 1) page repos []) = repos"
        by (subst search_loop.simps) auto
      then show ?thesis using \<open>\<not> int (length repos) < m\<close> by simp
    qed
    then show ?thesis unfolding a by auto
  next
    case True
    show ?thesis
    proof (cases "good_page (request page)")
      case False
      have a: "snd (search_loop request m max_pages page repos requested) = requested @ [page]"
        using False True by (subst search_loop.simps) (auto simp: good_page_def split: sum.splits option.splits list.splits)
      have "p = page" if "page \<le> p" "\<forall>j\<in>{page..<p}. good_page (request j)"
      proof (rule ccontr)
        assume "p \<noteq> page"
        then have "page \<in> {page..<p}" using that(1) by simp
        then show False using that(2) False by blast
      qed
      then show ?thesis unfolding a using True stop by auto
    next
      case G: True
      then obtain results it rest where r: "request page = Inr results" "items results = Some (it # rest)"
        by (auto simp: good_page_def neq_Nil_conv split: sum.splits option.splits)
      let ?repos' = "extract_items m (it # rest) repos"
      have ex: "?repos' = take (nat m) (repos @ fresh repos (candidates (it # rest)))"
        using True by (intro extract_items_closed) simp
      have len: "int (length ?repos') \<le> max 0 m" unfolding ex by simp
      have step: "snd (search_loop request m max_pages page repos requested)
          = snd (search_loop request m max_pages (page + 1) ?repos' (requested @ [page]))"
        using True r by (subst search_loop.simps) simp
      have IH: "p \<in> set (snd (search_loop request m max_pages (page + 1) ?repos' (requested @ [page]))) \<longleftrightarrow>
          p \<in> set (requested @ [page]) \<or>
          (page + 1 \<le> p \<and> p \<le> max_pages \<and> (\<forall>j\<in>{page + 1..<p}. good_page (request j)) \<and>
           int (length (fst (search_loop request m (p - 1) (page + 1) ?repos' []))) < m)"
        using True r len by (intro "1.IH") auto
      have unfold: "fst (search_loop request m (p - 1) page repos [])
            = fst (search_loop request m (p - 1) (page + 1) ?repos' [])" if "page < p"
      proof -
        have "fst (search_loop request m (p - 1) page repos [])
            = fst (search_loop request m (p - 1) (page + 1) ?repos' ([] @ [page]))"
          using True r that by (subst search_loop.simps) simp
        then show ?thesis using search_loop_fst_trace[OF len] by simp
      qed
      have set_split: "{page..<p} = insert page {page + 1..<p}" if "page < p"
        using that by auto
      show ?thesis
      proof (cases "page < p")
        case T: True
        then show ?thesis unfolding step IH using True G unfold[OF T] set_split[OF T] by auto
      next
        case F: False
        show ?thesis
        proof (cases "p = page")
          case True
          then show ?thesis unfolding step IH using \<open>page \<le> max_pages \<and> int (length repos) < m\<close> stop by auto
        next
          case False
          then show ?thesis unfolding step IH using F by auto
        qed
      qed
    qed
  qed
qed

lemma full_name_candidate: "candidate it = Some kv \<Longrightarrow> full_name (snd kv) = fst kv"
  by (auto simp: candidate_def make_record_def split: option.splits if_splits)

lemma full_name_candidates: "kv \<in> set (candidates its) \<Longrightarrow> full_name (snd kv) = fst kv"
  by (induction its) (auto simp: candidates_simps split: option.splits dest: full_name_candidate)

lemma stream_from_consumed: "stream_from request 1 max_pages = consumed_items request max_pages"
  by (simp add: consumed_items_def)

lemma fresh_empty: "fresh [] kvs = first_occurrences kvs"
  by (simp add: fresh_def)

lemma search_closed:
  "search_repos_with_cook_files request max_repos max_pages
     = take (nat max_repos) (map snd (first_occurrences (candidates (consumed_items request max_pages))))"
  by (simp add: search_repos_with_cook_files_def search_loop_closed stream_from_consumed fresh_empty take_map)

lemma set_first_occurrences: "set (first_occurrences kvs) \<subseteq> set kvs"
  by (induction kvs rule: first_occurrences.induct) auto


text \<open>
  C5. The records the search returns have pairwise different full names; they are the
  records built from the first occurrence of each repository among the result items in
  result order (later items of the same repository are ignored), listed in first-seen
  order and cut at \<open>max_repos\<close>.
\<close>

theorem search_first_seen_unique:
  "distinct (map full_name (search_repos_with_cook_files request max_repos max_pages)) \<and>
   search_repos_with_cook_files request max_repos max_pages
     = take (nat max_repos) (map snd (first_occurrences (candidates (consumed_items request max_pages)))) \<and>
   (\<forall>r \<in> set (search_repos_with_cook_files request max_repos max_pages).
      map_of (candidates (consumed_items request max_pages)) (full_name r) = Some r)"
proof -
  let ?S = "candidates (consumed_items request max_pages)"
  let ?F = "first_occurrences ?S"
  have names: "map full_name (map snd ?F) = map fst ?F"
    using set_first_occurrences[of ?S]
    by (auto simp: subset_iff dest!: full_name_candidates[of _ "consumed_items request max_pages"])
  have "distinct (map full_name (map snd ?F))"
    unfolding names by (rule distinct_first_occurrences)
  then have d: "distinct (map full_name (take (nat max_repos) (map snd ?F)))"
    by (simp only: take_map[symmetric] distinct_take)
  have m: "map_of ?S (full_name r) = Some r" if "r \<in> set (take (nat max_repos) (map snd ?F))" for r
  proof -
    from that have "r \<in> snd ` set ?F" by (auto dest: in_set_takeD)
    then obtain k where k: "(k, r) \<in> set ?F" by force
    then have "full_name r = k"
      using set_first_occurrences[of ?S] full_name_candidates[of "(k, r)"] by auto
    moreover have "map_of ?F k = Some r"
      using k distinct_first_occurrences[of ?S] by simp
    ultimately show ?thesis by (simp add: map_of_first_occurrences)
  qed
  show ?thesis unfolding search_closed using d m by blast
qed

theorem search_first_seen_unique_witness:
  "search_repos_with_cook_files example_api 10 5
     = take (nat 10) (map snd (first_occurrences (candidates (consumed_items example_api 5)))) \<and>
   distinct (map full_name (search_repos_with_cook_files example_api 10 5)) \<and>
   make_record (item_repo (example_item ''a/x'' (Val ''first'') (Some 5))) ''a/x''
     \<in> set (search_repos_with_cook_files example_api 10 5) \<and>
   map_of (candidates (consumed_items example_api 5)) ''a/x''
     = Some (make_record (item_repo (example_item ''a/x'' (Val ''first'') (Some 5))) ''a/x'')"
proof -
  let ?r = "make_record (item_repo (example_item ''a/x'' (Val ''first'') (Some 5))) ''a/x''"
  have mem: "?r \<in> set (search_repos_with_cook_files example_api 10 5)"
    by code_simp
  have nm: "full_name ?r = ''a/x''"
    by (simp add: make_record_def)
  note inst = search_first_seen_unique[of example_api 10 5]
  from inst have eq: "search_repos_with_cook_files example_api 10 5
     = take (nat 10) (map snd (first_occurrences (candidates (consumed_items example_api 5))))"
    by (elim conjE)
  from inst have dist: "distinct (map full_name (search_repos_with_cook_files example_api 10 5))"
    by (elim conjE)
  from inst mem
  have "map_of (candidates (consumed_items example_api 5)) (full_name ?r) = Some ?r"
    by blast
  then have first: "map_of (candidates (consumed_items example_api 5)) ''a/x'' = Some ?r"
    by (simp only: nm)
  show ?thesis
    by (intro conjI eq dist mem first)
qed

text \<open>
  C6. The search requests pages 1, 2, ... in order, and page \<open>p\<close> is requested exactly
  when none of the stop conditions held before it: \<open>p\<close> is within \<open>max_pages\<close>, every
  earlier page came back with items, and the repositories collected from the earlier
  pages are fewer than \<open>max_repos\<close>. So at most \<open>max_pages\<close> pages are requested and at
  most \<open>max_repos\<close> records are returned (none when the bound is not positive).
\<close>

theorem search_stops_exactly:
  "int (length (pages_requested request max_repos max_pages)) \<le> max 0 max_pages \<and>
   int (length (search_repos_with_cook_files request max_repos max_pages)) \<le> max 0 max_repos \<and>
   pages_requested request max_repos max_pages
     = [1..int (length (pages_requested request max_repos max_pages))] \<and>
   (\<forall>p. p \<in> set (pages_requested request max_repos max_pages) \<longleftrightarrow>
      1 \<le> p \<and> p \<le> max_pages \<and> (\<forall>j\<in>{1..<p}. good_page (request j)) \<and>
      int (length (search_repos_with_cook_files request max_repos (p - 1))) < max_repos)"
proof -
  obtain k where k: "0 \<le> k" "k \<le> max max_pages 0"
      "pages_requested request max_repos max_pages = [1..k]"
    using search_loop_trace_shape[of 1 max_pages request max_repos "[]" "[]"]
    by (auto simp: pages_requested_def)
  have len: "int (length (pages_requested request max_repos max_pages)) = k"
    using k by simp
  have a: "int (length (pages_requested request max_repos max_pages)) \<le> max 0 max_pages"
    using k len by simp
  have b: "int (length (search_repos_with_cook_files request max_repos max_pages)) \<le> max 0 max_repos"
    unfolding search_closed by simp
  have c: "pages_requested request max_repos max_pages
     = [1..int (length (pages_requested request max_repos max_pages))]"
    using k len by simp
  have d: "p \<in> set (pages_requested request max_repos max_pages) \<longleftrightarrow>
      1 \<le> p \<and> p \<le> max_pages \<and> (\<forall>j\<in>{1..<p}. good_page (request j)) \<and>
      int (length (search_repos_with_cook_files request max_repos (p - 1))) < max_repos" for p
    using search_loop_trace_mem[of "[]" max_repos p request max_pages 1 "[]"]
    by (simp add: pages_requested_def search_repos_with_cook_files_def)
  show ?thesis using a b c d by blast
qed

theorem search_stops_exactly_witness:
  "good_page (example_api 1) \<and> good_page (example_api 2) \<and> \<not> good_page (example_api 3) \<and>
   int (length (search_repos_with_cook_files example_api 10 (3 - 1))) < 10 \<and>
   3 \<in> set (pages_requested example_api 10 5) \<and>
   4 \<notin> set (pages_requested example_api 10 5) \<and>
   int (length (pages_requested example_api 10 5)) \<le> max 0 5 \<and>
   pages_requested example_api 2 5 = [1]"
proof -
  have g: "good_page (example_api 1)" "good_page (example_api 2)" "\<not> good_page (example_api 3)"
    by (simp_all add: good_page_def example_api_def)
  have n: "int (length (search_repos_with_cook_files example_api 10 (3 - 1))) < 10"
    by code_simp
  have "\<forall>j\<in>{1..<3::int}. good_page (example_api j)"
  proof
    fix j :: int
    assume "j \<in> {1..<3}"
    then have "j = 1 \<or> j = 2" by auto
    then show "good_page (example_api j)" using g by auto
  qed
  then have three: "3 \<in> set (pages_requested example_api 10 5)"
    using search_stops_exactly[of example_api 10 5] n by auto
  have "\<not> (\<forall>j\<in>{1..<4::int}. good_page (example_api j))"
    using g(3) by auto
  then have four: "4 \<notin> set (pages_requested example_api 10 5)"
    using search_stops_exactly[of example_api 10 5] by blast
  have one: "pages_requested example_api 2 5 = [1]"
    by code_simp
  show ?thesis
    using g n three four one search_stops_exactly[of example_api 10 5] by simp
qed


section \<open>ConfigStore: adding entries\<close>

lemma is_feed_exists_after_add:
  assumes "add_feed fm repo added_by tdy = Inr (b, fm1)"
  shows "is_feed_exists fm1 (url repo) = Inr True"
  using assms
  by (auto simp: add_feed_def is_feed_exists_def new_feed_def Let_def
      split: sum.splits bool.splits jfield.splits if_splits)


text \<open>
  C7. If an entry with the record's url exists, \<open>add_feed\<close> returns false and the
  manager is unchanged. After any call of \<open>add_feed\<close> that returned, a second call with
  the same url returns false and changes nothing; so two calls for a url that was not
  present append exactly one entry, the one built by the first call.
\<close>

theorem add_feed_idempotent:
  "(is_feed_exists fm (url repo) = Inr True \<longrightarrow> add_feed fm repo added_by tdy = Inr (False, fm)) \<and>
   (add_feed fm repo added_by tdy = Inr (b, fm1) \<and> url other = url repo \<longrightarrow>
      add_feed fm1 other other_by other_day = Inr (False, fm1)) \<and>
   (is_feed_exists fm (url repo) = Inr False \<and> url other = url repo \<longrightarrow>
      (\<exists>fm1. add_feed fm repo added_by tdy = Inr (True, fm1) \<and>
             add_feed fm1 other other_by other_day = Inr (False, fm1) \<and>
             entries fm1 = entries fm @ [new_feed repo added_by tdy] \<and>
             header_lines fm1 = header_lines fm \<and> footer_lines fm1 = footer_lines fm \<and>
             version (config fm1) = version (config fm)))"
proof (intro conjI impI)
  assume "is_feed_exists fm (url repo) = Inr True"
  then show "add_feed fm repo added_by tdy = Inr (False, fm)"
    by (simp add: add_feed_def)
next
  assume a: "add_feed fm repo added_by tdy = Inr (b, fm1) \<and> url other = url repo"
  then have "is_feed_exists fm1 (url other) = Inr True"
    using is_feed_exists_after_add[of fm repo added_by tdy b fm1] by simp
  then show "add_feed fm1 other other_by other_day = Inr (False, fm1)"
    by (simp add: add_feed_def)
next
  assume a: "is_feed_exists fm (url repo) = Inr False \<and> url other = url repo"
  let ?fm1 = "fm\<lparr>config := (config fm)\<lparr>feeds := Val (entries fm @ [new_feed repo added_by tdy])\<rparr>\<rparr>"
  have 1: "add_feed fm repo added_by tdy = Inr (True, ?fm1)"
    using a by (simp add: add_feed_def entries_def)
  have "is_feed_exists ?fm1 (url other) = Inr True"
    using a is_feed_exists_after_add[OF 1] by simp
  then have 2: "add_feed ?fm1 other other_by other_day = Inr (False, ?fm1)"
    by (simp add: add_feed_def)
  have 3: "entries ?fm1 = entries fm @ [new_feed repo added_by tdy]"
    by (simp add: entries_def)
  show "\<exists>fm1. add_feed fm repo added_by tdy = Inr (True, fm1) \<and>
             add_feed fm1 other other_by other_day = Inr (False, fm1) \<and>
             entries fm1 = entries fm @ [new_feed repo added_by tdy] \<and>
             header_lines fm1 = header_lines fm \<and> footer_lines fm1 = footer_lines fm \<and>
             version (config fm1) = version (config fm)"
    using 1 2 3 by (intro exI[of _ ?fm1]) simp
qed


theorem add_feed_idempotent_witness:
  "is_feed_exists example_manager (url example_record) = Inr True \<and>
   add_feed example_manager example_record ''@bot'' ''2024-05-01'' = Inr (False, example_manager) \<and>
   is_feed_exists feedless_manager (url example_record) = Inr False \<and>
   (\<exists>fm1. add_feed feedless_manager example_record ''@bot'' ''2024-05-01'' = Inr (True, fm1) \<and>
          add_feed fm1 example_record ''@carol'' ''2024-05-02'' = Inr (False, fm1) \<and>
          entries fm1 = entries feedless_manager @ [new_feed example_record ''@bot'' ''2024-05-01''])"
proof -
  have a: "is_feed_exists example_manager (url example_record) = Inr True"
    by (simp add: is_feed_exists_def example_manager_def example_config_def example_feed_def
        example_record_def)
  have b: "is_feed_exists feedless_manager (url example_record) = Inr False"
    by (simp add: is_feed_exists_def feedless_manager_def)
  note inst1 = add_feed_idempotent[of example_manager example_record "''@bot''" "''2024-05-01''"]
  note inst2 = add_feed_idempotent[where fm = feedless_manager and repo = example_record
      and other = example_record and added_by = "''@bot''" and tdy = "''2024-05-01''"
      and other_by = "''@carol''" and other_day = "''2024-05-02''"]
  from inst1 a have c: "add_feed example_manager example_record ''@bot'' ''2024-05-01''
      = Inr (False, example_manager)"
    by blast
  from inst2 b have d: "\<exists>fm1. add_feed feedless_manager example_record ''@bot'' ''2024-05-01'' = Inr (True, fm1) \<and>
          add_feed fm1 example_record ''@carol'' ''2024-05-02'' = Inr (False, fm1) \<and>
          entries fm1 = entries feedless_manager @ [new_feed example_record ''@bot'' ''2024-05-01'']"
    by blast
  show ?thesis by (intro conjI a b c d)
qed

text \<open>
  C10. On a document without a \<open>feeds\<close> key, \<open>is_feed_exists\<close> is false for every url,
  and \<open>add_feed\<close> succeeds: it returns true and the document's entry sequence becomes the
  one-element list of the new entry.
\<close>

theorem add_feed_missing_feeds:
  "feeds (config fm) = Absent \<Longrightarrow>
     is_feed_exists fm u = Inr False \<and>
     add_feed fm repo added_by tdy
       = Inr (True, fm\<lparr>config := (config fm)\<lparr>feeds := Val [new_feed repo added_by tdy]\<rparr>\<rparr>)"
  by (simp add: is_feed_exists_def add_feed_def)


theorem add_feed_missing_feeds_witness:
  "feeds (config feedless_manager) = Absent \<and>
   is_feed_exists feedless_manager (Some ''https://github.com/a/x'') = Inr False \<and>
   add_feed feedless_manager example_record ''@bot'' ''2024-05-01''
     = Inr (True, feedless_manager\<lparr>config := (config feedless_manager)
         \<lparr>feeds := Val [new_feed example_record ''@bot'' ''2024-05-01'']\<rparr>\<rparr>)"
proof -
  have a: "feeds (config feedless_manager) = Absent"
    by (simp add: feedless_manager_def)
  show ?thesis
    using a add_feed_missing_feeds[OF a, of "Some ''https://github.com/a/x''" example_record
        "''@bot''" "''2024-05-01''"]
    by simp
qed

section \<open>ConfigStore: what the serializer escapes\<close>

text \<open>
  C3. The entry of \<open>quoted_branch_manager\<close> has the title \<open>say "hi"\<close> and the branch
  \<open>a"b\<close>. \<open>save_config\<close> escapes the quotes of the title, and writes the branch between
  quotes as it is.
\<close>

theorem save_config_branch_unescaped:
  "save_config quoted_branch_manager =
     (concat (map (\<lambda>l. l @ [newline])
        [''version: 1'',
         [],
         ''feeds:'',
         ''  # GitHub repository feed'',
         ''  - url: '' @ [dquote] @ ''https://github.com/a/x'' @ [dquote],
         ''    title: '' @ [dquote] @ ''say '' @ [backslash, dquote] @ ''hi'' @ [backslash, dquote] @ [dquote],
         ''    feed_type: github'',
         ''    branch: '' @ [dquote] @ ''a'' @ [dquote] @ ''b'' @ [dquote],
         ''    enabled: true'',
         ''    tags:'',
         ''      - cookbook'',
         ''    notes: '' @ [dquote] @ ''by hand'' @ [dquote],
         ''    added_by: '' @ [dquote] @ ''@alice'' @ [dquote],
         ''    added_at: '' @ [dquote] @ ''2024-01-31'' @ [dquote]]),
      None)"
  by code_simp

text \<open>
  C2. The entry of \<open>backslash_manager\<close> has the title \<open>C:\<close>, a backslash, \<open>temp\<close>.
  \<open>save_config\<close> writes the title between double quotes with the backslash as it is:
  \<open>_escape_yaml_string\<close> replaces double quotes only. In a double-quoted YAML scalar a
  backslash starts an escape sequence, so the text read back is not the title saved.
\<close>

theorem save_config_backslash_unescaped:
  "escape_yaml_string (Some (''C:'' @ [backslash] @ ''temp'')) = ''C:'' @ [backslash] @ ''temp'' \<and>
   save_config backslash_manager =
     (concat (map (\<lambda>l. l @ [newline])
        [''version: 1'',
         [],
         ''feeds:'',
         ''  # GitHub repository feed'',
         ''  - url: '' @ [dquote] @ ''https://github.com/a/x'' @ [dquote],
         ''    title: '' @ [dquote] @ ''C:'' @ [backslash] @ ''temp'' @ [dquote],
         ''    feed_type: github'',
         ''    branch: '' @ [dquote] @ ''main'' @ [dquote],
         ''    enabled: true'',
         ''    tags:'',
         ''      - cookbook'',
         ''    notes: '' @ [dquote] @ ''by hand'' @ [dquote],
         ''    added_by: '' @ [dquote] @ ''@alice'' @ [dquote],
         ''    added_at: '' @ [dquote] @ ''2024-01-31'' @ [dquote]]),
      None)"
  by code_simp

section \<open>Orchestrator: an empty search\<close>

lemma main_empty_search:
  assumes "arg_token a = Some tok" "tok \<noteq> []"
    and "config_file w = Some content"
    and "FeedManager (yaml_safe_load w) content = Inr feed_mgr"
    and "search_repos_with_cook_files (github w) (arg_limit a * 5) (arg_max_pages a) = []"
  shows "main w a = \<lparr>exit_status = 0, file_after = config_file w,
                     printed = [Using_config_file, No_repositories_found]\<rparr>"
  using assms by (simp add: main_def)

text \<open>
  C9. When the search returns no repository, \<open>main\<close> prints that none was found and
  returns (exit status 0), and the configuration file is what it was: nothing is added
  or saved.
\<close>

theorem main_no_repositories:
  "arg_token a = Some tok \<and> tok \<noteq> [] \<and> config_file w = Some content \<and>
   FeedManager (yaml_safe_load w) content = Inr feed_mgr \<and>
   search_repos_with_cook_files (github w) (arg_limit a * 5) (arg_max_pages a) = [] \<longrightarrow>
     exit_status (main w a) = 0 \<and>
     file_after (main w a) = config_file w \<and>
     printed (main w a) = [Using_config_file, No_repositories_found]"
  using main_empty_search[of a tok w content feed_mgr] by auto

theorem main_no_repositories_witness:
  "arg_token example_args = Some ''ghp_token'' \<and> ''ghp_token'' \<noteq> [] \<and>
   config_file empty_world = Some example_content \<and>
   search_repos_with_cook_files (github empty_world) (arg_limit example_args * 5)
     (arg_max_pages example_args) = [] \<and>
   exit_status (main empty_world example_args) = 0 \<and>
   file_after (main empty_world example_args) = Some example_content \<and>
   printed (main empty_world example_args) = [Using_config_file, No_repositories_found]"
proof -
  have t: "arg_token example_args = Some ''ghp_token''"
    by (simp add: example_args_def)
  have c: "config_file empty_world = Some example_content"
    by (simp add: empty_world_def)
  have f: "FeedManager (yaml_safe_load empty_world) example_content
      = Inr \<lparr>config = example_config, header_lines = extract_header example_content,
             footer_lines = extract_footer example_content\<rparr>"
    by (simp add: FeedManager_def empty_world_def)
  have s: "search_repos_with_cook_files (github empty_world) (arg_limit example_args * 5)
     (arg_max_pages example_args) = []"
    by code_simp
  show ?thesis
    using t c f s main_no_repositories[of example_args "''ghp_token''" empty_world example_content]
    by simp
qed

section \<open>Searcher: failed requests\<close>

lemma takeWhile_upto_bad:
  assumes "\<not> P p" "1 \<le> p" "p \<le> n"
  shows "takeWhile P [1..n] = takeWhile P [1..p - 1]"
proof -
  have "[1..n] = [1..p - 1] @ [p..n]"
    using assms by (simp add: upto_split1)
  moreover have "[p..n] = p # [p + 1..n]"
    using assms by (simp add: upto_rec1)
  ultimately have "[1..n] = [1..p - 1] @ p # [p + 1..n]" by simp
  then show ?thesis using assms(1)
    by (simp add: takeWhile_append takeWhile_eq_all_conv[THEN iffD2])
qed

lemma bad_page_of_error: "r = Inl e \<Longrightarrow> \<not> good_page r"
  by (simp add: good_page_def)

lemma search_failure_truncates:
  assumes "request p = Inl e" "1 \<le> p"
  shows "search_repos_with_cook_files request max_repos max_pages
       = search_repos_with_cook_files request max_repos (min max_pages (p - 1))"
proof (cases "p \<le> max_pages")
  case True
  have "takeWhile (\<lambda>q. good_page (request q)) [1..max_pages]
      = takeWhile (\<lambda>q. good_page (request q)) [1..p - 1]"
    using assms True bad_page_of_error[OF assms(1)] by (intro takeWhile_upto_bad) auto
  then have "consumed_items request max_pages = consumed_items request (p - 1)"
    by (simp add: consumed_items_def stream_from_def)
  moreover have "min max_pages (p - 1) = p - 1" using True by simp
  ultimately show ?thesis by (simp add: search_closed)
next
  case False
  then have "min max_pages (p - 1) = max_pages" by simp
  then show ?thesis by simp
qed


lemma search_no_pages: "max_pages \<le> 0 \<Longrightarrow> search_repos_with_cook_files request max_repos max_pages = []"
  by (simp add: search_closed consumed_items_def stream_from_def candidates_simps)

text \<open>
  C1, as the code has it. A failed request on page \<open>p\<close> ends the pagination and the
  search returns, without raising, what it had collected: the result of the same search
  limited to the pages before \<open>p\<close>. This holds for the first page as well and for every
  error: the search then returns the empty list, and \<open>main\<close> reports that no repository
  was found and ends with exit status 0.
\<close>

theorem search_failure_returns_collected:
  "(request p = Inl e \<and> 1 \<le> p \<longrightarrow>
      search_repos_with_cook_files request max_repos max_pages
        = search_repos_with_cook_files request max_repos (min max_pages (p - 1))) \<and>
   (github w 1 = Inl e \<and> arg_token a = Some tok \<and> tok \<noteq> [] \<and> config_file w = Some content \<and>
    FeedManager (yaml_safe_load w) content = Inr feed_mgr \<longrightarrow>
      search_repos_with_cook_files (github w) (arg_limit a * 5) (arg_max_pages a) = [] \<and>
      main w a = \<lparr>exit_status = 0, file_after = config_file w,
                   printed = [Using_config_file, No_repositories_found]\<rparr>)"
proof (intro conjI impI)
  assume "request p = Inl e \<and> 1 \<le> p"
  then show "search_repos_with_cook_files request max_repos max_pages
        = search_repos_with_cook_files request max_repos (min max_pages (p - 1))"
    using search_failure_truncates[of request p e] by simp
next
  assume a: "github w 1 = Inl e \<and> arg_token a = Some tok \<and> tok \<noteq> [] \<and> config_file w = Some content \<and>
    FeedManager (yaml_safe_load w) content = Inr feed_mgr"
  have "search_repos_with_cook_files (github w) (arg_limit a * 5) (arg_max_pages a)
      = search_repos_with_cook_files (github w) (arg_limit a * 5) (min (arg_max_pages a) (1 - 1))"
    using a by (intro search_failure_truncates[of _ _ e]) simp_all
  then show s: "search_repos_with_cook_files (github w) (arg_limit a * 5) (arg_max_pages a) = []"
    by (simp add: search_no_pages)
  show "main w a = \<lparr>exit_status = 0, file_after = config_file w,
                   printed = [Using_config_file, No_repositories_found]\<rparr>"
    using a s main_empty_search[of a tok w content feed_mgr] by simp
qed

theorem search_failure_returns_collected_witness:
  "example_api 4 = Inl (HTTPError 403) \<and>
   search_repos_with_cook_files example_api 10 5 = search_repos_with_cook_files example_api 10 3 \<and>
   github unauthorized_world 1 = Inl (HTTPError 401) \<and>
   main unauthorized_world example_args
     = \<lparr>exit_status = 0, file_after = config_file unauthorized_world,
        printed = [Using_config_file, No_repositories_found]\<rparr>"
proof -
  have a: "example_api 4 = Inl (HTTPError 403)"
    by (simp add: example_api_def)
  have b: "github unauthorized_world 1 = Inl (HTTPError 401)"
    by (simp add: unauthorized_world_def)
  have t: "arg_token example_args = Some ''ghp_token''"
    by (simp add: example_args_def)
  have c: "config_file unauthorized_world = Some example_content"
    by (simp add: unauthorized_world_def)
  have f: "FeedManager (yaml_safe_load unauthorized_world) example_content
      = Inr \<lparr>config = example_config, header_lines = extract_header example_content,
             footer_lines = extract_footer example_content\<rparr>"
    by (simp add: FeedManager_def unauthorized_world_def)
  from search_failure_returns_collected[of example_api 4 "HTTPError 403" 10 5] a
  have 1: "search_repos_with_cook_files example_api 10 5 = search_repos_with_cook_files example_api 10 3"
    by simp
  from search_failure_returns_collected[of _ _ "HTTPError 401" _ _ unauthorized_world example_args
      "''ghp_token''" example_content] b t c f
  have 2: "main unauthorized_world example_args
     = \<lparr>exit_status = 0, file_after = config_file unauthorized_world,
        printed = [Using_config_file, No_repositories_found]\<rparr>"
    by simp
  show ?thesis by (intro conjI a b 1 2)
qed

text \<open>
  C1, as stated, fails: with a token and a readable configuration, when every request
  (the first included) is refused with status 401 the search returns the empty list and
  \<open>main\<close> ends with exit status 0 after reporting that no repository was found.
\<close>

theorem first_page_auth_failure_not_fatal:
  "github unauthorized_world 1 = Inl (HTTPError 401) \<and>
   search_repos_with_cook_files (github unauthorized_world) (arg_limit example_args * 5)
     (arg_max_pages example_args) = [] \<and>
   exit_status (main unauthorized_world example_args) = 0 \<and>
   printed (main unauthorized_world example_args) = [Using_config_file, No_repositories_found]"
  by code_simp

section \<open>Orchestrator: the selection policy\<close>

lemma mset_shuffle_loop: "i < length x \<Longrightarrow> mset (shuffle_loop d i x) = mset x"
proof (induction i arbitrary: x)
  case 0
  then show ?case by simp
next
  case (Suc i)
  let ?j = "d (Suc i) mod (Suc i + 1)"
  let ?x' = "x[Suc i := x ! ?j, ?j := x ! Suc i]"
  have j: "?j < length x"
  proof -
    have "?j < Suc i + 1" by (rule mod_less_divisor) simp
    then show ?thesis using Suc.prems by linarith
  qed
  have "mset ?x' = mset x"
    using Suc.prems j by (simp add: mset_swap)
  moreover have "mset (shuffle_loop d i ?x') = mset ?x'"
    using Suc.prems by (intro Suc.IH) simp
  ultimately show ?case by (simp add: Let_def)
qed

lemma mset_shuffle: "mset (shuffle d x) = mset x"
  by (cases x) (simp_all add: shuffle_def mset_shuffle_loop)

lemma slice_to_nat: "slice_to xs (int n) = take n xs"
  by (simp add: slice_to_def)

lemma sorted_by_stars:
  assumes "distinct (map stars repos)"
  shows "sorted_wrt (\<lambda>a b. stars b < stars a) (sort_key (\<lambda>r. - stars r) repos)"
proof -
  let ?S = "sort_key (\<lambda>r. - stars r) repos"
  have "mset (map (\<lambda>r. - stars r) ?S) = mset (map (\<lambda>r. - stars r) repos)"
    by simp
  moreover have "distinct (map (\<lambda>r. - stars r) repos)"
    using assms by (simp add: distinct_map inj_on_def)
  ultimately have "distinct (map (\<lambda>r. - stars r) ?S)"
    by (metis mset_eq_imp_distinct_iff)
  moreover have "sorted (map (\<lambda>r. - stars r) ?S)"
    by (rule sorted_sort_key)
  ultimately have "sorted_wrt (<) (map (\<lambda>r. - stars r) ?S)"
    by (simp add: strict_sorted_iff)
  then show ?thesis by (simp add: sorted_wrt_map)
qed


text \<open>
  C8. For candidates with pairwise different star counts and a limit \<open>n\<close> (a count) not
  above their number: without \<open>--randomize\<close> the selection has \<open>n\<close> candidates, in
  strictly descending order of stars, and every candidate left out has fewer stars than
  every selected one; with \<open>--randomize\<close> it has \<open>n\<close> pairwise different candidates, all
  from the list.
\<close>

theorem select_repos_policy:
  "distinct (map stars repos) \<and> n \<le> length repos \<longrightarrow>
     (length (select_repos False d repos (int n)) = n \<and>
      set (select_repos False d repos (int n)) \<subseteq> set repos \<and>
      sorted_wrt (\<lambda>a b. stars b < stars a) (select_repos False d repos (int n)) \<and>
      (\<forall>r\<in>set repos - set (select_repos False d repos (int n)).
         \<forall>s\<in>set (select_repos False d repos (int n)). stars r < stars s)) \<and>
     (length (select_repos True d repos (int n)) = n \<and>
      distinct (select_repos True d repos (int n)) \<and>
      set (select_repos True d repos (int n)) \<subseteq> set repos)"
proof
  assume a: "distinct (map stars repos) \<and> n \<le> length repos"
  let ?S = "sort_key (\<lambda>r. - stars r) repos"
  have top: "select_repos False d repos (int n) = take n ?S"
    by (simp add: select_repos_def slice_to_nat)
  have rnd: "select_repos True d repos (int n) = take n (shuffle d repos)"
    by (simp add: select_repos_def slice_to_nat)
  have srt: "sorted_wrt (\<lambda>a b. stars b < stars a) ?S"
    using a by (intro sorted_by_stars) simp
  have 1: "length (take n ?S) = n" using a by simp
  have 2: "set (take n ?S) \<subseteq> set repos"
    using set_take_subset[of n ?S] by simp
  have 3: "sorted_wrt (\<lambda>a b. stars b < stars a) (take n ?S)"
    using srt by (rule sorted_wrt_take)
  have 4: "stars r < stars s" if "r \<in> set repos - set (take n ?S)" "s \<in> set (take n ?S)" for r s
  proof -
    have "set repos = set (take n ?S) \<union> set (drop n ?S)"
      using set_append[of "take n ?S" "drop n ?S"] by simp
    then have "r \<in> set (drop n ?S)" using that(1) by auto
    moreover have "sorted_wrt (\<lambda>a b. stars b < stars a) (take n ?S @ drop n ?S)"
      using srt by simp
    ultimately have "\<forall>x\<in>set (take n ?S). \<forall>y\<in>set (drop n ?S). stars y < stars x"
      by (simp only: sorted_wrt_append) simp
    then show ?thesis using that(2) \<open>r \<in> set (drop n ?S)\<close> by blast
  qed
  have dr: "distinct repos" using a by (auto simp: distinct_map)
  have ms: "mset (shuffle d repos) = mset repos" by (rule mset_shuffle)
  have 5: "length (take n (shuffle d repos)) = n"
    using a mset_eq_length[OF ms] by simp
  have "distinct (shuffle d repos)"
    using dr mset_eq_imp_distinct_iff[OF ms] by simp
  then have 6: "distinct (take n (shuffle d repos))" by simp
  have "set (shuffle d repos) = set repos" using ms by (rule mset_eq_setD)
  then have 7: "set (take n (shuffle d repos)) \<subseteq> set repos"
    using set_take_subset[of n "shuffle d repos"] by simp
  show "(length (select_repos False d repos (int n)) = n \<and>
      set (select_repos False d repos (int n)) \<subseteq> set repos \<and>
      sorted_wrt (\<lambda>a b. stars b < stars a) (select_repos False d repos (int n)) \<and>
      (\<forall>r\<in>set repos - set (select_repos False d repos (int n)).
         \<forall>s\<in>set (select_repos False d repos (int n)). stars r < stars s)) \<and>
     (length (select_repos True d repos (int n)) = n \<and>
      distinct (select_repos True d repos (int n)) \<and>
      set (select_repos True d repos (int n)) \<subseteq> set repos)"
    unfolding top rnd using 1 2 3 4 5 6 7 by blast
qed


theorem select_repos_policy_witness:
  "distinct (map stars example_repos) \<and> 2 \<le> length example_repos \<and>
   map full_name (select_repos False (\<lambda>i. 0) example_repos (int 2)) = [''c/z'', ''a/x''] \<and>
   map stars (select_repos False (\<lambda>i. 0) example_repos (int 2)) = [9, 5] \<and>
   length (select_repos True (\<lambda>i. 0) example_repos (int 2)) = 2 \<and>
   distinct (select_repos True (\<lambda>i. 0) example_repos (int 2))"
proof -
  have a: "distinct (map stars example_repos)" by code_simp
  have b: "2 \<le> length example_repos" by code_simp
  have c: "map full_name (select_repos False (\<lambda>i. 0) example_repos (int 2)) = [''c/z'', ''a/x'']"
    by code_simp
  have d: "map stars (select_repos False (\<lambda>i. 0) example_repos (int 2)) = [9, 5]"
    by code_simp
  from select_repos_policy[of example_repos 2 "\<lambda>i. 0"] a b
  have "length (select_repos True (\<lambda>i. 0) example_repos (int 2)) = 2"
       "distinct (select_repos True (\<lambda>i. 0) example_repos (int 2))"
    by blast+
  then show ?thesis using a b c d by simp
qed


section \<open>ConfigStore: header and footer\<close>

lemma extract_header_loop_region:
  "extract_header_loop ls = map rstrip (takeWhile is_header_line ls)"
  by (induction ls) (simp_all add: is_header_line_def Let_def)

lemma extract_footer_loop_all: "extract_footer_loop True ls = map rstrip ls"
  by (induction ls) (simp_all add: Let_def)

lemma extract_footer_loop_region:
  "extract_footer_loop False ls = map rstrip (dropWhile (\<lambda>l. \<not> is_footer_start l) ls)"
  by (induction ls) (auto simp: is_footer_start_def Let_def extract_footer_loop_all)

lemma file_lines_last:
  "s \<noteq> [] \<Longrightarrow> dropWhile (\<lambda>c. c \<noteq> newline) s = [] \<Longrightarrow> file_lines s = [s]"
  by (subst file_lines.simps) (simp del: dropWhile_eq_Nil_conv)

lemma file_lines_Cons:
  "s \<noteq> [] \<Longrightarrow> dropWhile (\<lambda>c. c \<noteq> newline) s = c # rest \<Longrightarrow>
   file_lines s = (takeWhile (\<lambda>c. c \<noteq> newline) s @ [newline]) # file_lines rest"
  by (subst file_lines.simps) simp

lemma concat_file_lines: "concat (file_lines s) = s"
proof (induction s rule: file_lines.induct)
  case (1 s)
  show ?case
  proof (cases "s = []")
    case True
    then show ?thesis by (subst file_lines.simps) simp
  next
    case False
    show ?thesis
    proof (cases "dropWhile (\<lambda>c. c \<noteq> newline) s")
      case Nil
      then show ?thesis using False by (simp add: file_lines_last del: dropWhile_eq_Nil_conv)
    next
      case (Cons c rest)
      have c: "c = newline"
        using Cons hd_dropWhile[of "\<lambda>c. c \<noteq> newline" s] by auto
      have "concat (file_lines s) = takeWhile (\<lambda>c. c \<noteq> newline) s @ [newline] @ concat (file_lines rest)"
        using False Cons by (simp add: file_lines_Cons)
      also have "\<dots> = takeWhile (\<lambda>c. c \<noteq> newline) s @ [newline] @ rest"
        using "1.IH"[OF False Cons] by simp
      also have "\<dots> = takeWhile (\<lambda>c. c \<noteq> newline) s @ dropWhile (\<lambda>c. c \<noteq> newline) s"
        using Cons c by simp
      finally show ?thesis by simp
    qed
  qed
qed

lemma header_region_prefix: "prefix (concat (header_region content)) content"
proof -
  have "file_lines content = header_region content @ dropWhile is_header_line (file_lines content)"
    by (simp add: header_region_def)
  then have "content = concat (header_region content) @ concat (dropWhile is_header_line (file_lines content))"
    by (metis concat_append concat_file_lines)
  then show ?thesis by (metis prefixI)
qed

lemma footer_region_suffix: "suffix (concat (footer_region content)) content"
proof -
  have "file_lines content = takeWhile (\<lambda>l. \<not> is_footer_start l) (file_lines content) @ footer_region content"
    by (simp add: footer_region_def)
  then have "content = concat (takeWhile (\<lambda>l. \<not> is_footer_start l) (file_lines content)) @ concat (footer_region content)"
    by (metis concat_append concat_file_lines)
  then show ?thesis by (metis suffixI)
qed

lemma add_feed_frame:
  assumes "add_feed fm repo added_by tdy = Inr (b, fm1)"
  shows "header_lines fm1 = header_lines fm \<and> footer_lines fm1 = footer_lines fm \<and>
         version (config fm1) = version (config fm) \<and>
         entries fm1 = entries fm @ (if b then [new_feed repo added_by tdy] else [])"
  using assms
  by (auto simp: add_feed_def entries_def Let_def split: sum.splits bool.splits)

lemma process_repos_frame:
  "process_repos dry added_by tdy repos fm k msgs = Inr (fm1, k1, msgs1) \<Longrightarrow>
     header_lines fm1 = header_lines fm \<and> footer_lines fm1 = footer_lines fm \<and>
     version (config fm1) = version (config fm) \<and>
     (\<exists>added. entries fm1 = entries fm @ added)"
proof (induction repos arbitrary: fm k msgs)
  case Nil
  then show ?case by simp
next
  case (Cons repo rest)
  show ?case
  proof (cases dry)
    case True
    then obtain k' msgs' where "process_repos dry added_by tdy rest fm k' msgs' = Inr (fm1, k1, msgs1)"
      using Cons.prems by (auto split: sum.splits if_splits)
    then show ?thesis by (rule Cons.IH)
  next
    case False
    then obtain b fm' k' msgs' where
      a: "add_feed fm repo added_by tdy = Inr (b, fm')" and
      r: "process_repos dry added_by tdy rest fm' k' msgs' = Inr (fm1, k1, msgs1)"
      using Cons.prems by (auto split: sum.splits bool.splits prod.splits)
    from Cons.IH[OF r] add_feed_frame[OF a] show ?thesis by auto
  qed
qed

lemma save_config_shape:
  assumes "save_config fm = (out, None)"
  shows "\<exists>mid. out =
     (if header_lines fm \<noteq> [] then unlines (header_lines fm) @ [newline] else []) @ mid @
     (if footer_lines fm \<noteq> [] then [newline, newline, newline] @ unlines (footer_lines fm) else [])"
proof -
  obtain body where "write_feeds 0 (length (entries fm)) (entries fm) = (body, None)"
    and "out = (if header_lines fm \<noteq> [] then unlines (header_lines fm) @ [newline] else []) @
      (''version: '' @ version_text (version (config fm)) @ [newline, newline] @ ''feeds:'' @ [newline] @ body) @
      (if footer_lines fm \<noteq> [] then [newline, newline, newline] @ unlines (footer_lines fm) else [])"
    using assms
    by (auto simp: save_config_def entries_def unlines_def Let_def split: jfield.splits prod.splits option.splits)
  then show ?thesis by blast
qed

lemma save_config_prefix_suffix:
  assumes "save_config fm = (out, None)"
  shows "prefix (unlines (header_lines fm)) out \<and> suffix (unlines (footer_lines fm)) out"
proof -
  from save_config_shape[OF assms] obtain mid where out: "out =
     (if header_lines fm \<noteq> [] then unlines (header_lines fm) @ [newline] else []) @ mid @
     (if footer_lines fm \<noteq> [] then [newline, newline, newline] @ unlines (footer_lines fm) else [])"
    by blast
  have "prefix (unlines (header_lines fm)) out"
  proof (cases "header_lines fm = []")
    case True
    then show ?thesis by (simp add: unlines_def)
  next
    case False
    then show ?thesis unfolding out by simp
  qed
  moreover have "suffix (unlines (footer_lines fm)) out"
  proof (cases "footer_lines fm = []")
    case True
    then show ?thesis by (simp add: unlines_def)
  next
    case False
    then have "out = ((unlines (header_lines fm) @ [newline]) @ mid @ [newline, newline, newline]) @ unlines (footer_lines fm)
        \<or> out = (mid @ [newline, newline, newline]) @ unlines (footer_lines fm)"
      unfolding out by simp
    then show ?thesis by (metis suffixI)
  qed
  ultimately show ?thesis by simp
qed

lemma unlines_clean:
  "\<forall>l\<in>set ls. l = rstrip l @ [newline] \<Longrightarrow> unlines (map rstrip ls) = concat ls"
  by (induction ls) (simp_all add: unlines_def)


section \<open>ConfigStore: what a save keeps\<close>

lemma rstrip_no_break_space: "rstrip nbsp_line = ''# Feeds''"
  by code_simp

text \<open>
  C4, as the code has it. After a load, any number of \<open>add_feed\<close> calls and a save
  that succeeds, the written text begins with the lines of the file's header region and
  ends with the lines of its footer region, each line as \<open>rstrip\<close> leaves it (its
  trailing whitespace, Unicode whitespace included, removed) and ended by a line break.
  When every line of a region is its own \<open>rstrip\<close> followed by a line break, the region
  is reproduced as it stood in the text of the file. The entry sequence is the loaded
  one, possibly extended.
\<close>

theorem save_config_header_footer:
  "FeedManager ld content = Inr fm0 \<and>
   process_repos False added_by tdy repos fm0 k msgs = Inr (fm, k1, msgs1) \<and>
   save_config fm = (out, None) \<longrightarrow>
     prefix (concat (header_region content)) content \<and>
     suffix (concat (footer_region content)) content \<and>
     prefix (unlines (map rstrip (header_region content))) out \<and>
     suffix (unlines (map rstrip (footer_region content))) out \<and>
     ((\<forall>l\<in>set (header_region content). l = rstrip l @ [newline]) \<longrightarrow>
        prefix (concat (header_region content)) out) \<and>
     ((\<forall>l\<in>set (footer_region content). l = rstrip l @ [newline]) \<longrightarrow>
        suffix (concat (footer_region content)) out) \<and>
     (\<exists>added. entries fm = entries fm0 @ added)"
proof
  assume a: "FeedManager ld content = Inr fm0 \<and>
   process_repos False added_by tdy repos fm0 k msgs = Inr (fm, k1, msgs1) \<and>
   save_config fm = (out, None)"
  then have h0: "header_lines fm0 = map rstrip (header_region content)"
    and f0: "footer_lines fm0 = map rstrip (footer_region content)"
    by (auto simp: FeedManager_def extract_header_def extract_footer_def header_region_def
        footer_region_def extract_header_loop_region extract_footer_loop_region split: sum.splits)
  from a process_repos_frame[of False added_by tdy repos fm0 k msgs fm k1 msgs1]
  have fr: "header_lines fm = header_lines fm0" "footer_lines fm = footer_lines fm0"
    "\<exists>added. entries fm = entries fm0 @ added"
    by auto
  from a save_config_prefix_suffix[of fm out]
  have ps: "prefix (unlines (map rstrip (header_region content))) out"
    "suffix (unlines (map rstrip (footer_region content))) out"
    by (simp_all add: fr h0 f0)
  show "prefix (concat (header_region content)) content \<and>
     suffix (concat (footer_region content)) content \<and>
     prefix (unlines (map rstrip (header_region content))) out \<and>
     suffix (unlines (map rstrip (footer_region content))) out \<and>
     ((\<forall>l\<in>set (header_region content). l = rstrip l @ [newline]) \<longrightarrow>
        prefix (concat (header_region content)) out) \<and>
     ((\<forall>l\<in>set (footer_region content). l = rstrip l @ [newline]) \<longrightarrow>
        suffix (concat (footer_region content)) out) \<and>
     (\<exists>added. entries fm = entries fm0 @ added)"
    using ps fr(3) header_region_prefix[of content] footer_region_suffix[of content]
    by (auto simp: unlines_clean)
qed


theorem save_config_header_footer_witness:
  "FeedManager (\<lambda>c. Inr example_config) example_content = Inr example_manager \<and>
   concat (header_region example_content) = ''# Feeds'' @ [newline] \<and>
   concat (footer_region example_content)
     = ''validation:'' @ [newline] @ ''  max_feeds: 10'' @ [newline] \<and>
   (\<exists>fm msgs out.
      process_repos False ''@bot'' ''2024-05-01'' example_repos example_manager 0 []
        = Inr (fm, 2, msgs) \<and>
      save_config fm = (out, None) \<and>
      prefix (concat (header_region example_content)) out \<and>
      suffix (concat (footer_region example_content)) out \<and>
      length (entries fm) = 3)"
proof -
  define fm where "fm = example_manager\<lparr>config := \<lparr>version = Val 1, feeds = Val
     [example_feed, new_feed (example_repos ! 1) ''@bot'' ''2024-05-01'',
      new_feed (example_repos ! 2) ''@bot'' ''2024-05-01'']\<rparr>\<rparr>"
  define msgs where "msgs = [Skipping ''a/x'', Added ''b/y'' 0, Added ''c/z'' 9]"
  have ld: "FeedManager (\<lambda>c. Inr example_config) example_content = Inr example_manager"
    by code_simp
  have run: "process_repos False ''@bot'' ''2024-05-01'' example_repos example_manager 0 []
      = Inr (fm, 2, msgs)"
    unfolding fm_def msgs_def by code_simp
  have "snd (save_config fm) = None"
    unfolding fm_def by code_simp
  then have sv: "save_config fm = (fst (save_config fm), None)"
    by (simp add: prod_eq_iff)
  have h: "header_region example_content = [''# Feeds'' @ [newline]]"
    by code_simp
  have f: "footer_region example_content = [''validation:'' @ [newline], ''  max_feeds: 10'' @ [newline]]"
    by code_simp
  have ch: "\<forall>l\<in>set (header_region example_content). l = rstrip l @ [newline]"
    unfolding h by code_simp
  have cf: "\<forall>l\<in>set (footer_region example_content). l = rstrip l @ [newline]"
    unfolding f by code_simp
  have n: "length (entries fm) = 3"
    by (simp add: fm_def entries_def)
  from save_config_header_footer[where ld = "\<lambda>c. Inr example_config" and content = example_content
      and ?fm0.0 = example_manager and added_by = "''@bot''" and tdy = "''2024-05-01''"
      and repos = example_repos and k = 0 and msgs = "[]" and fm = fm and ?k1.0 = 2
      and ?msgs1.0 = msgs and out = "fst (save_config fm)"] ld run sv ch cf
  have ps: "prefix (concat (header_region example_content)) (fst (save_config fm))"
    "suffix (concat (footer_region example_content)) (fst (save_config fm))"
    by blast+
  have 1: "concat (header_region example_content) = ''# Feeds'' @ [newline]"
    unfolding h by simp
  have 2: "concat (footer_region example_content)
     = ''validation:'' @ [newline] @ ''  max_feeds: 10'' @ [newline]"
    unfolding f by simp
  have 3: "\<exists>fm msgs out.
      process_repos False ''@bot'' ''2024-05-01'' example_repos example_manager 0 []
        = Inr (fm, 2, msgs) \<and>
      save_config fm = (out, None) \<and>
      prefix (concat (header_region example_content)) out \<and>
      suffix (concat (footer_region example_content)) out \<and>
      length (entries fm) = 3"
    using run sv ps n by blast
  show ?thesis by (intro conjI ld 1 2 3)
qed

text \<open>
  C4, as stated, fails. The file \<open>spaced_content\<close> has the header line \<open># Feeds\<close>
  followed by a space. It loads to \<open>example_manager\<close>, and the saved text starts with
  \<open># Feeds\<close> and two line breaks: the header region of the file is not a prefix of it.
\<close>

theorem save_config_strips_trailing_space:
  "FeedManager (\<lambda>c. Inr example_config) spaced_content = Inr example_manager \<and>
   snd (save_config example_manager) = None \<and>
   concat (header_region spaced_content) = ''# Feeds '' @ [newline] \<and>
   take 9 (fst (save_config example_manager)) = ''# Feeds'' @ [newline, newline] \<and>
   \<not> prefix (concat (header_region spaced_content)) (fst (save_config example_manager))"
  by code_simp

end
